theory Spec2Isabelle
  imports Main "HOL-Library.Word" "HOL-Library.Multiset"
begin

section \<open>Exponential backoff (package schedule)\<close>

text \<open>
  Go's \<^verbatim>\<open>time.Duration\<close> is an \<^verbatim>\<open>int64\<close> count of nanoseconds, and
  \<^verbatim>\<open>ExponentialBackoff\<close> is declared as \<^verbatim>\<open>type ExponentialBackoff time.Duration\<close>.
  Both are 64-bit words here: \<open>*\<close> wraps around as Go's \<^verbatim>\<open>*=\<close> does, and the comparisons
  of the source are the signed ones (\<open><s\<close>, \<open>\<le>s\<close>).
\<close>

type_synonym Duration = "64 word"

definition Second :: Duration where
  "Second = 1000000000"

definition Minute :: Duration where
  "Minute = 60 * Second"

definition minRetryDelay :: Duration where
  "minRetryDelay = 30 * Second"

definition maxRetryDelay :: Duration where
  "maxRetryDelay = 30 * Minute"

text \<open>
  \<^verbatim>\<open>func (e *ExponentialBackoff) Delay() time.Duration\<close>: the receiver is the state; the
  model returns the value returned by the call, paired with the state it leaves behind.
\<close>

definition Delay :: "Duration \<Rightarrow> Duration \<times> Duration" where
  "Delay e =
     (let current = e;
          e' = (if e <s minRetryDelay then minRetryDelay
                else (let e2 = e * 2
                      in if maxRetryDelay <s e2 then maxRetryDelay else e2))
      in (current, e'))"

text \<open>\<open>n\<close> successive calls of \<^verbatim>\<open>Delay()\<close>: the values returned, in order, and the final state.\<close>

fun Delays :: "nat \<Rightarrow> Duration \<Rightarrow> Duration list \<times> Duration" where
  "Delays 0 e = ([], e)"
| "Delays (Suc n) e =
     (let (d, e') = Delay e; (ds, e'') = Delays n e' in (d # ds, e''))"

lemmas dur_defs = Second_def Minute_def minRetryDelay_def maxRetryDelay_def

subsection \<open>Facts about one call\<close>

lemma sint_double:
  "0 \<le> sint (d::Duration) \<Longrightarrow> sint d < 2 ^ 62 \<Longrightarrow> sint (d * 2) = 2 * sint d"
  by (simp add: sint_word_ariths signed_take_bit_int_eq_self)

lemma sint_minRetryDelay: "sint minRetryDelay = 30000000000"
  by (simp add: dur_defs)

lemma sint_maxRetryDelay: "sint maxRetryDelay = 1800000000000"
  by (simp add: dur_defs)

lemma Delay_fst: "fst (Delay e) = e"
  by (simp add: Delay_def Let_def)

lemma Delay_below: "e <s minRetryDelay \<Longrightarrow> snd (Delay e) = minRetryDelay"
  by (simp add: Delay_def Let_def)

lemma Delay_above:
  assumes lo: "minRetryDelay \<le>s d" and hi: "sint d < 2 ^ 62"
  shows "sint (snd (Delay d)) = min (2 * sint d) (sint maxRetryDelay)"
proof -
  from lo have ge: "30000000000 \<le> sint d"
    by (simp add: word_sle_eq sint_minRetryDelay)
  then have dbl: "sint (d * 2) = 2 * sint d"
    using hi by (intro sint_double) auto
  from ge have nlt: "\<not> d <s minRetryDelay"
    by (simp add: word_sless_alt sint_minRetryDelay)
  show ?thesis
    using nlt dbl by (simp add: Delay_def Let_def word_sless_alt min_def)
qed

lemma Delay_ceiling: "Delay maxRetryDelay = (maxRetryDelay, maxRetryDelay)"
  by (simp add: Delay_def dur_defs word_sless_alt)

subsection \<open>Facts about sequences of calls\<close>

lemma Delays_ceiling: "Delays k maxRetryDelay = (replicate k maxRetryDelay, maxRetryDelay)"
  by (induction k) (simp_all add: Delay_ceiling)

lemma Delays_add:
  "Delays (a + b) e =
     (fst (Delays a e) @ fst (Delays b (snd (Delays a e))), snd (Delays b (snd (Delays a e))))"
  by (induction a arbitrary: e) (simp_all add: split_def Let_def)

lemma Delay_steps:
  "Delay 0 = (0, 30 * Second)"
  "Delay (30 * Second) = (30 * Second, Minute)"
  "Delay Minute = (Minute, 2 * Minute)"
  "Delay (2 * Minute) = (2 * Minute, 4 * Minute)"
  "Delay (4 * Minute) = (4 * Minute, 8 * Minute)"
  "Delay (8 * Minute) = (8 * Minute, 16 * Minute)"
  "Delay (16 * Minute) = (16 * Minute, maxRetryDelay)"
  by (simp_all add: Delay_def dur_defs word_sless_alt)

lemma Delays_3: "Delays 3 0 = ([0, 30 * Second, Minute], 2 * Minute)"
proof -
  have s: "(3::nat) = Suc (Suc (Suc 0))" by simp
  show ?thesis unfolding s by (simp add: Delay_steps)
qed

lemma Delays_7:
  "Delays 7 0 =
     ([0, 30 * Second, Minute, 2 * Minute, 4 * Minute, 8 * Minute, 16 * Minute], maxRetryDelay)"
proof -
  have s: "(7::nat) = Suc (Suc (Suc (Suc (Suc (Suc (Suc 0))))))" by simp
  show ?thesis unfolding s by (simp add: Delay_steps)
qed

lemma Delays_9:
  "Delays 9 0 =
     ([0, 30 * Second, Minute, 2 * Minute, 4 * Minute, 8 * Minute, 16 * Minute,
       maxRetryDelay, maxRetryDelay], maxRetryDelay)"
proof -
  have "Delays 9 0 = Delays (7 + 2) 0" by simp
  also have "\<dots> = ([0, 30 * Second, Minute, 2 * Minute, 4 * Minute, 8 * Minute, 16 * Minute]
        @ replicate 2 maxRetryDelay, maxRetryDelay)"
    by (simp only: Delays_add Delays_7 Delays_ceiling fst_conv snd_conv)
  finally show ?thesis by (simp add: numeral_2_eq_2)
qed

text \<open>The range the state stays in: between zero and the ceiling.\<close>

definition in_range :: "Duration \<Rightarrow> bool" where
  "in_range e \<longleftrightarrow> 0 \<le>s e \<and> e \<le>s maxRetryDelay"

lemma in_range_Delay:
  assumes "in_range e"
  shows "minRetryDelay \<le>s snd (Delay e) \<and> snd (Delay e) \<le>s maxRetryDelay"
proof (cases "e <s minRetryDelay")
  case True
  then show ?thesis
    by (simp add: Delay_below) (simp add: word_sle_eq dur_defs)
next
  case False
  then have lo: "minRetryDelay \<le>s e"
    by (simp add: word_sle_eq word_sless_alt)
  from assms have "sint e \<le> 1800000000000"
    by (simp add: in_range_def word_sle_eq sint_maxRetryDelay)
  then have hi: "sint e < 2 ^ 62" by simp
  from lo have "30000000000 \<le> sint e"
    by (simp add: word_sle_eq sint_minRetryDelay)
  then show ?thesis
    using Delay_above [OF lo hi]
    by (simp add: word_sle_eq sint_minRetryDelay sint_maxRetryDelay min_def split: if_splits)
qed

lemma in_range_step: "in_range e \<Longrightarrow> in_range (snd (Delay e))"
  using in_range_Delay [of e]
  by (simp add: in_range_def word_sle_eq sint_minRetryDelay)

lemma Delays_in_range:
  "in_range e \<Longrightarrow>
     in_range (snd (Delays n e)) \<and> (\<forall>d \<in> set (fst (Delays n e)). d \<le>s maxRetryDelay)"
proof (induction n arbitrary: e)
  case 0
  then show ?case by simp
next
  case (Suc n)
  from Suc.prems have "in_range (snd (Delay e))" by (rule in_range_step)
  from Suc.IH [OF this] Suc.prems show ?case
    by (simp add: split_def Let_def Delay_fst in_range_def)
qed

lemma Delays_floor:
  "in_range e \<Longrightarrow> 0 < n \<Longrightarrow> minRetryDelay \<le>s snd (Delays n e)"
proof (induction n arbitrary: e)
  case 0
  then show ?case by simp
next
  case (Suc n)
  show ?case
  proof (cases n)
    case 0
    with Suc.prems show ?thesis
      using in_range_Delay [of e] by (simp add: split_def Let_def)
  next
    case (Suc m)
    from Suc.prems(1) have "in_range (snd (Delay e))" by (rule in_range_step)
    with Suc.IH [of "snd (Delay e)"] Suc show ?thesis
      by (simp add: split_def Let_def)
  qed
qed

subsection \<open>Claims about the backoff\<close>

text \<open>
  C1 (as the code has it). While the stored duration is below the floor, \<^verbatim>\<open>Delay()\<close>
  stores the floor but returns the stored duration it found, which is zero on a fresh
  instance. The calls on a fresh instance therefore return 0, 30s, 1m, 2m, 4m, 8m, 16m
  and from then on 30m for ever, the state holding at the ceiling.
\<close>

theorem Delay_fresh_sequence:
  "(e <s minRetryDelay \<longrightarrow> Delay e = (e, minRetryDelay)) \<and>
   Delays (7 + k) 0 =
     ([0, 30 * Second, Minute, 2 * Minute, 4 * Minute, 8 * Minute, 16 * Minute]
        @ replicate k maxRetryDelay, maxRetryDelay)"
proof
  show "e <s minRetryDelay \<longrightarrow> Delay e = (e, minRetryDelay)"
    by (simp add: Delay_def Let_def)
  show "Delays (7 + k) 0 =
     ([0, 30 * Second, Minute, 2 * Minute, 4 * Minute, 8 * Minute, 16 * Minute]
        @ replicate k maxRetryDelay, maxRetryDelay)"
    by (simp only: Delays_add Delays_7 Delays_ceiling fst_conv snd_conv)
qed

theorem Delay_fresh_sequence_witness:
  "(0::Duration) <s minRetryDelay \<and> Delay 0 = (0, minRetryDelay) \<and>
   Delays 9 0 =
     ([0, 30 * Second, Minute, 2 * Minute, 4 * Minute, 8 * Minute, 16 * Minute,
       30 * Minute, 30 * Minute], 30 * Minute)"
proof -
  have lt: "(0::Duration) <s minRetryDelay"
    by (simp add: word_sless_alt dur_defs)
  from Delay_fresh_sequence [of 0 2] lt show ?thesis
    by (simp add: numeral_2_eq_2 maxRetryDelay_def)
qed

text \<open>
  C1 as the specification words it fails at the fresh instance: the first call returns
  zero, not the floor, and the sequence does not start with the floor twice.
\<close>

theorem Delay_fresh_counterexample:
  "fst (Delay 0) \<noteq> minRetryDelay \<and>
   fst (Delays 9 0) \<noteq>
     [30 * Second, 30 * Second, Minute, 2 * Minute, 4 * Minute, 8 * Minute, 16 * Minute,
      30 * Minute, 30 * Minute]"
proof
  show "fst (Delay 0) \<noteq> minRetryDelay"
    by (simp add: Delay_fst dur_defs)
  show "fst (Delays 9 0) \<noteq>
     [30 * Second, 30 * Second, Minute, 2 * Minute, 4 * Minute, 8 * Minute, 16 * Minute,
      30 * Minute, 30 * Minute]"
    by (simp add: Delays_9 dur_defs)
qed

text \<open>
  C8 (as the code has it). For a stored duration \<open>d\<close> that is at least the floor and whose
  double still fits in an \<^verbatim>\<open>int64\<close> (\<open>d < 2^62\<close> nanoseconds), \<^verbatim>\<open>Delay()\<close> returns
  \<open>d\<close> and stores the smaller of \<open>2 d\<close> and the ceiling; at the ceiling the state stays
  at the ceiling.
\<close>

theorem Delay_doubles_and_clamps:
  "minRetryDelay \<le>s d \<Longrightarrow> sint d < 2 ^ 62 \<Longrightarrow>
     fst (Delay d) = d \<and>
     sint (snd (Delay d)) = min (2 * sint d) (sint maxRetryDelay) \<and>
     Delay maxRetryDelay = (maxRetryDelay, maxRetryDelay)"
  by (simp add: Delay_fst Delay_above Delay_ceiling)

theorem Delay_doubles_and_clamps_witness:
  "minRetryDelay \<le>s 4 * Minute \<and> sint (4 * Minute) < 2 ^ 62 \<and>
   fst (Delay (4 * Minute)) = 4 * Minute \<and>
   sint (snd (Delay (4 * Minute))) = min (2 * sint (4 * Minute)) (sint maxRetryDelay) \<and>
   snd (Delay (4 * Minute)) = 8 * Minute"
proof -
  have lo: "minRetryDelay \<le>s 4 * Minute"
    by (simp add: word_sle_eq dur_defs)
  have hi: "sint (4 * Minute) < 2 ^ 62"
    by (simp add: dur_defs)
  have v: "snd (Delay (4 * Minute)) = 8 * Minute"
    by (simp add: Delay_def dur_defs word_sless_alt)
  from Delay_doubles_and_clamps [OF lo hi] lo hi v show ?thesis
    by simp
qed

text \<open>
  C8 as the specification words it, for every state at or above the floor, fails where
  the doubling overflows: at \<open>2^62\<close> nanoseconds the product wraps to the most negative
  duration, which is not above the ceiling and is stored as it is.
\<close>

theorem Delay_doubles_counterexample:
  "minRetryDelay \<le>s 2 ^ 62 \<and>
   sint (snd (Delay (2 ^ 62))) \<noteq> min (2 * sint (2 ^ 62 :: Duration)) (sint maxRetryDelay)"
  by (simp add: Delay_def dur_defs word_sless_alt word_sle_eq)

text \<open>
  C10. Starting from the zero value, after any positive number of \<^verbatim>\<open>Delay()\<close> calls
  the stored duration lies between the floor (30s) and the ceiling (30m), and every value
  the calls returned is at most the ceiling.
\<close>

theorem Delays_bounds:
  "0 < n \<Longrightarrow>
     minRetryDelay \<le>s snd (Delays n 0) \<and> snd (Delays n 0) \<le>s maxRetryDelay \<and>
     (\<forall>d \<in> set (fst (Delays n 0)). d \<le>s maxRetryDelay)"
proof -
  assume n: "0 < n"
  have z: "in_range 0"
    by (simp add: in_range_def word_sle_eq dur_defs)
  from Delays_in_range [OF z, of n] Delays_floor [OF z n] show ?thesis
    by (simp add: in_range_def)
qed

theorem Delays_bounds_witness:
  "(0::nat) < 3 \<and>
   minRetryDelay \<le>s snd (Delays 3 0) \<and> snd (Delays 3 0) \<le>s maxRetryDelay \<and>
   list_all (\<lambda>d. d \<le>s maxRetryDelay) (fst (Delays 3 0)) \<and>
   Delays 3 0 = ([0, 30 * Second, Minute], 2 * Minute)"
proof -
  have n: "(0::nat) < 3" by simp
  from Delays_bounds [OF n] have
    "minRetryDelay \<le>s snd (Delays 3 0)" "snd (Delays 3 0) \<le>s maxRetryDelay"
    "list_all (\<lambda>d. d \<le>s maxRetryDelay) (fst (Delays 3 0))"
    by (simp_all add: list_all_iff)
  with n Delays_3 show ?thesis
    by blast
qed

section \<open>The time queue (package timequeue)\<close>

subsection \<open>Time\<close>

text \<open>
  A \<^verbatim>\<open>time.Time\<close> is a point on an unbounded line of nanoseconds, an \<open>int\<close>; the
  methods of Go's standard library that the source calls are written out here.
  \<^verbatim>\<open>Add\<close> moves a time by a (signed) duration and \<^verbatim>\<open>Sub\<close> is the difference of two
  times as a duration, which the library saturates at the least and the greatest
  \<^verbatim>\<open>int64\<close> when the difference does not fit.
\<close>

type_synonym Time = int

definition Time_Before :: "Time \<Rightarrow> Time \<Rightarrow> bool" where
  "Time_Before t u \<longleftrightarrow> t < u"

definition Time_After :: "Time \<Rightarrow> Time \<Rightarrow> bool" where
  "Time_After t u \<longleftrightarrow> u < t"

definition Time_Add :: "Time \<Rightarrow> Duration \<Rightarrow> Time" where
  "Time_Add t d = t + sint d"

definition Time_Sub :: "Time \<Rightarrow> Time \<Rightarrow> Duration" where
  "Time_Sub t u =
     (if - (2 ^ 63) \<le> t - u \<and> t - u < 2 ^ 63 then word_of_int (t - u)
      else if Time_Before t u then word_of_int (- (2 ^ 63))
      else word_of_int (2 ^ 63 - 1))"

subsection \<open>Items, and the memory they live in\<close>

text \<open>
  The queue holds pointers: \<^verbatim>\<open>items\<close> is a slice of \<^verbatim>\<open>*queueItem\<close> and the index
  \<^verbatim>\<open>m\<close> maps a key to the same \<^verbatim>\<open>*queueItem\<close>. \<^verbatim>\<open>Swap\<close> and \<^verbatim>\<open>Push\<close> write the
  field \<^verbatim>\<open>i\<close> through the slice and \<^verbatim>\<open>Remove\<close> reads it through the index, so the
  model has an explicit store: a pointer is an address, and the store maps the
  addresses in use to the items they hold. The fields of \<^verbatim>\<open>queueItem\<close> keep their
  names behind the prefix \<open>item_\<close>.
\<close>

type_synonym addr = nat

record ('k, 'v) queueItem =
  item_i :: nat
  item_key :: 'k
  item_value :: 'v
  item_t :: Time

type_synonym ('k, 'v) store = "addr \<rightharpoonup> ('k, 'v) queueItem"

definition deref :: "('k, 'v) store \<Rightarrow> addr \<Rightarrow> ('k, 'v) queueItem" where
  "deref \<sigma> a = the (\<sigma> a)"

text \<open>
  A \<^verbatim>\<open>queueItems\<close> value, as the methods below see it, is the slice together with the
  store its pointers refer to. \<^verbatim>\<open>Len\<close>, \<^verbatim>\<open>Less\<close>, \<^verbatim>\<open>Swap\<close>, \<^verbatim>\<open>Push\<close> and \<^verbatim>\<open>Pop\<close>
  are the methods of the source; \<open>set_i\<close> is the assignment \<^verbatim>\<open>p.i = n\<close> through a
  pointer \<open>p\<close>. Go panics on an index outside the slice, where \<open>!\<close> is unspecified:
  the queue below calls these methods on positions inside the slice only, \<^verbatim>\<open>Ready\<close>
  popping while the slice is not empty and \<^verbatim>\<open>Remove\<close> behind a check of the position
  that stands for the panic.
\<close>

type_synonym ('k, 'v) queueItems = "addr list \<times> ('k, 'v) store"

definition Len :: "('k, 'v) queueItems \<Rightarrow> nat" where
  "Len s = length (fst s)"

definition Less :: "('k, 'v) queueItems \<Rightarrow> nat \<Rightarrow> nat \<Rightarrow> bool" where
  "Less s i j \<longleftrightarrow>
     Time_Before (item_t (deref (snd s) (fst s ! i))) (item_t (deref (snd s) (fst s ! j)))"

definition set_i :: "('k, 'v) store \<Rightarrow> addr \<Rightarrow> nat \<Rightarrow> ('k, 'v) store" where
  "set_i \<sigma> a n = \<sigma>(a \<mapsto> (deref \<sigma> a)\<lparr>item_i := n\<rparr>)"

definition Swap :: "('k, 'v) queueItems \<Rightarrow> nat \<Rightarrow> nat \<Rightarrow> ('k, 'v) queueItems" where
  "Swap s i j =
     (let xs = (fst s)[i := fst s ! j, j := fst s ! i];
          \<sigma>1 = set_i (snd s) (xs ! i) i;
          \<sigma>2 = set_i \<sigma>1 (xs ! j) j
      in (xs, \<sigma>2))"

definition Push :: "('k, 'v) queueItems \<Rightarrow> addr \<Rightarrow> ('k, 'v) queueItems" where
  "Push s a = (fst s @ [a], set_i (snd s) a (length (fst s)))"

definition Pop :: "('k, 'v) queueItems \<Rightarrow> addr \<times> ('k, 'v) queueItems" where
  "Pop s = (let n = length (fst s) - 1; x = fst s ! n in (x, (take n (fst s), snd s)))"

subsection \<open>The heap algorithms of container/heap\<close>

text \<open>
  \<^verbatim>\<open>heap.Push\<close>, \<^verbatim>\<open>heap.Pop\<close> and \<^verbatim>\<open>heap.Remove\<close> of Go's standard library, with its
  loops \<^verbatim>\<open>up\<close> and \<^verbatim>\<open>down\<close>, over the five methods above. Indices are lengths of a
  slice, far below the range of Go's \<^verbatim>\<open>int\<close>, so they are natural numbers here and the
  library's guard against an overflowing \<^verbatim>\<open>2*i + 1\<close> has no counterpart.
  \<^verbatim>\<open>(j - 1) / 2\<close> is \<open>0\<close> at \<open>j = 0\<close> in Go (division truncates) as it is on \<open>nat\<close>.
  \<open>down_loop\<close> is the loop of \<^verbatim>\<open>down\<close>, returning the final index with the heap;
  \<^verbatim>\<open>down\<close> reports whether the element moved. \<^verbatim>\<open>heap.Remove\<close> is the current
  library's, which calls \<^verbatim>\<open>up\<close> only when \<^verbatim>\<open>down\<close> left the element in place.
\<close>

function up :: "('k, 'v) queueItems \<Rightarrow> nat \<Rightarrow> ('k, 'v) queueItems" where
  "up h j =
     (let i = (j - 1) div 2
      in if i = j \<or> \<not> Less h j i then h else up (Swap h i j) i)"
  by pat_completeness auto
termination
  by (relation "measure (\<lambda>(h, j). j)") auto

function down_loop :: "('k, 'v) queueItems \<Rightarrow> nat \<Rightarrow> nat \<Rightarrow> ('k, 'v) queueItems \<times> nat" where
  "down_loop h i n =
     (let j1 = 2 * i + 1
      in if n \<le> j1 then (h, i)
         else (let j = (if j1 + 1 < n \<and> Less h (j1 + 1) j1 then j1 + 1 else j1)
               in if \<not> Less h j i then (h, i) else down_loop (Swap h i j) j n))"
  by pat_completeness auto
termination
  by (relation "measure (\<lambda>(h, i, n). n - i)") (auto split: if_splits)

declare up.simps [simp del]

declare down_loop.simps [simp del]

definition down :: "('k, 'v) queueItems \<Rightarrow> nat \<Rightarrow> nat \<Rightarrow> ('k, 'v) queueItems \<times> bool" where
  "down h i0 n = (let (h', i) = down_loop h i0 n in (h', i0 < i))"

definition heap_Push :: "('k, 'v) queueItems \<Rightarrow> addr \<Rightarrow> ('k, 'v) queueItems" where
  "heap_Push h x = (let h1 = Push h x in up h1 (Len h1 - 1))"

definition heap_Pop :: "('k, 'v) queueItems \<Rightarrow> addr \<times> ('k, 'v) queueItems" where
  "heap_Pop h =
     (let n = Len h - 1;
          h1 = Swap h 0 n;
          (h2, moved) = down h1 0 n
      in Pop h2)"

definition heap_Remove :: "('k, 'v) queueItems \<Rightarrow> nat \<Rightarrow> addr \<times> ('k, 'v) queueItems" where
  "heap_Remove h i =
     (let n = Len h - 1;
          h' = (if n \<noteq> i
                then (let h1 = Swap h i n;
                          (h2, moved) = down h1 i n
                      in if \<not> moved then up h2 i else h2)
                else h)
      in Pop h')"

text \<open>
  The child that \<^verbatim>\<open>down\<close> compares with, and the loop's equations and induction rule
  in terms of it.
\<close>

definition child :: "('k, 'v) queueItems \<Rightarrow> nat \<Rightarrow> nat \<Rightarrow> nat" where
  "child h i n =
     (if 2 * i + 1 + 1 < n \<and> Less h (2 * i + 1 + 1) (2 * i + 1) then 2 * i + 1 + 1
      else 2 * i + 1)"

lemma down_loop_stop:
  "n \<le> 2 * i + 1 \<or> \<not> Less h (child h i n) i \<Longrightarrow> down_loop h i n = (h, i)"
  by (subst down_loop.simps) (auto simp: Let_def child_def)

lemma down_loop_rec:
  "2 * i + 1 < n \<Longrightarrow> Less h (child h i n) i \<Longrightarrow>
     down_loop h i n = down_loop (Swap h i (child h i n)) (child h i n) n"
  by (subst down_loop.simps) (auto simp: Let_def child_def)

lemma down_loop_induct [case_names step]:
  assumes "\<And>h i n.
     (2 * i + 1 < n \<Longrightarrow> Less h (child h i n) i \<Longrightarrow>
        P (Swap h i (child h i n)) (child h i n) n) \<Longrightarrow> P h i n"
  shows "P h i n"
proof (induction h i n rule: down_loop.induct)
  case (1 h i n)
  show ?case
  proof (rule assms)
    assume a: "2 * i + 1 < n" "Less h (child h i n) i"
    show "P (Swap h i (child h i n)) (child h i n) n"
      using "1.IH" [OF refl _ refl] a unfolding child_def by simp
  qed
qed

lemma fst_Swap: "fst (Swap (xs, \<sigma>) i j) = xs[i := xs ! j, j := xs ! i]"
  by (simp add: Swap_def Let_def)

lemma length_Swap: "length (fst (Swap h i j)) = length (fst h)"
  by (cases h) (simp add: fst_Swap)

lemma fst_down: "fst (down h i n) = fst (down_loop h i n)"
  by (simp add: down_def split_def Let_def)

lemma snd_down: "snd (down h i n) \<longleftrightarrow> i < snd (down_loop h i n)"
  by (simp add: down_def split_def Let_def)

lemma heap_Remove_unfold:
  "n = length (fst h) - 1 \<Longrightarrow>
   heap_Remove h i =
     Pop (if n \<noteq> i
          then (if \<not> snd (down (Swap h i n) i n)
                then up (fst (down (Swap h i n) i n)) i
                else fst (down (Swap h i n) i n))
          else h)"
  by (simp add: heap_Remove_def Let_def Len_def split_def)

lemma heap_Pop_unfold:
  "n = length (fst h) - 1 \<Longrightarrow> heap_Pop h = Pop (fst (down (Swap h 0 n) 0 n))"
  by (simp add: heap_Pop_def Let_def Len_def split_def)

lemma length_down_loop: "length (fst (fst (down_loop h i n))) = length (fst h)"
proof (induction h i n rule: down_loop_induct)
  case (step h i n)
  show ?case
  proof (cases "2 * i + 1 < n \<and> Less h (child h i n) i")
    case True
    then show ?thesis using step.IH by (simp add: down_loop_rec length_Swap)
  next
    case False
    then have "down_loop h i n = (h, i)" by (intro down_loop_stop) auto
    then show ?thesis by simp
  qed
qed

lemma length_heap_Pop: "length (fst (snd (heap_Pop h))) = length (fst h) - 1"
  by (simp add: heap_Pop_unfold [OF refl] Pop_def Let_def fst_down length_down_loop length_Swap)

subsection \<open>The queue\<close>

text \<open>
  A panic is a value: \<open>DuplicateKey\<close> is the panic of \<^verbatim>\<open>Add\<close>, \<open>IndexOutOfRange\<close> the
  run-time panic of a slice access. An operation returns its result (\<open>Inl\<close> the panic)
  together with the queue as the call leaves it.

  The \<^verbatim>\<open>Queue\<close> struct is its slice \<open>q_items\<close> and its index \<open>q_m\<close>, with the store the
  pointers refer to and the next address the allocator hands out. The clock is a
  capability outside the queue whose reading changes between calls, so the operations
  that consult it take it as an argument: \<open>Now\<close> is its reading at the call and
  \<open>After\<close> makes the channel for a duration.
\<close>

datatype 'k error = DuplicateKey 'k | IndexOutOfRange

record ('k, 'v) Queue =
  q_items :: "addr list"
  q_m :: "'k \<rightharpoonup> addr"
  q_store :: "('k, 'v) store"
  q_next :: addr

record 'h Clock =
  Now :: Time
  After :: "Duration \<Rightarrow> 'h"

definition New :: "('k, 'v) Queue" where
  "New = \<lparr>q_items = [], q_m = Map.empty, q_store = Map.empty, q_next = 0\<rparr>"

definition Next :: "'h Clock \<Rightarrow> ('k, 'v) Queue \<Rightarrow> 'h option" where
  "Next clk s =
     (if 0 < length (q_items s)
      then Some (After clk (Time_Sub (item_t (deref (q_store s) (q_items s ! 0))) (Now clk)))
      else None)"

text \<open>
  \<^verbatim>\<open>Ready\<close>: the loop pops while the queue is not empty and the root is not after
  \<open>now\<close>, deletes the popped item's key from the index and appends its value.
\<close>

function Ready_loop ::
  "Time \<Rightarrow> ('k, 'v) Queue \<Rightarrow> 'v list \<Rightarrow> 'v list \<times> ('k, 'v) Queue" where
  "Ready_loop now s ready =
     (if 0 < length (q_items s) \<and>
         \<not> Time_After (item_t (deref (q_store s) (q_items s ! 0))) now
      then (let p = heap_Pop (q_items s, q_store s);
                item = fst p;
                s1 = s\<lparr>q_items := fst (snd p), q_store := snd (snd p)\<rparr>;
                s2 = s1\<lparr>q_m := (q_m s1)(item_key (deref (q_store s1) item) := None)\<rparr>
            in Ready_loop now s2 (ready @ [item_value (deref (q_store s2) item)]))
      else (ready, s))"
  by pat_completeness auto
termination
  by (relation "measure (\<lambda>(now, s, ready). length (q_items s))")
     (auto simp: length_heap_Pop)

declare Ready_loop.simps [simp del]

definition Ready :: "Time \<Rightarrow> ('k, 'v) Queue \<Rightarrow> 'v list \<times> ('k, 'v) Queue" where
  "Ready now s = Ready_loop now s []"

text \<open>
  \<^verbatim>\<open>Add\<close> panics on a key of the index before it changes anything; otherwise it
  allocates the item, enters it in the index and pushes it on the heap.
  \<^verbatim>\<open>Remove\<close> looks the key up and removes the item at the position its field \<^verbatim>\<open>i\<close>
  gives; \<^verbatim>\<open>heap.Remove\<close> panics on a position outside the slice, before it writes.
\<close>

definition Queue_Add ::
  "'k \<Rightarrow> 'v \<Rightarrow> Time \<Rightarrow> ('k, 'v) Queue \<Rightarrow> ('k error + unit) \<times> ('k, 'v) Queue" where
  "Queue_Add key val t s =
     (if q_m s key \<noteq> None then (Inl (DuplicateKey key), s)
      else (let item = q_next s;
                \<sigma> = (q_store s)(item \<mapsto>
                      \<lparr>item_i = 0, item_key = key, item_value = val, item_t = t\<rparr>);
                m' = (q_m s)(key \<mapsto> item);
                h = heap_Push (q_items s, \<sigma>) item
            in (Inr (), \<lparr>q_items = fst h, q_m = m', q_store = snd h, q_next = Suc item\<rparr>)))"

definition Queue_Remove ::
  "'k \<Rightarrow> ('k, 'v) Queue \<Rightarrow> ('k error + unit) \<times> ('k, 'v) Queue" where
  "Queue_Remove key s =
     (case q_m s key of
        None \<Rightarrow> (Inr (), s)
      | Some item \<Rightarrow>
          (let i = item_i (deref (q_store s) item)
           in if i < length (q_items s)
              then (let p = heap_Remove (q_items s, q_store s) i
                    in (Inr (), s\<lparr>q_items := fst (snd p), q_store := snd (snd p),
                                  q_m := (q_m s)(key := None)\<rparr>))
              else (Inl IndexOutOfRange, s)))"

subsection \<open>The schedule (package schedule)\<close>

text \<open>
  A \<^verbatim>\<open>Schedule\<close> wraps a queue whose values are operations; its clock is the
  argument \<open>clk\<close> as above. An \<^verbatim>\<open>Operation\<close> is a value of some type \<open>'o\<close> with the
  two methods of the interface, given as functions: \<open>Key_of\<close> for \<^verbatim>\<open>Key()\<close>, and
  \<open>Delay_of\<close> for \<^verbatim>\<open>Delay()\<close>, which may change the operation
  (\<^verbatim>\<open>ExponentialBackoff.Delay\<close> has a pointer receiver) and so returns, next to the
  duration, the operation as the call leaves it; that is what the queue then holds.
  \<^verbatim>\<open>Schedule.Add\<close> has no result in the source: the model returns the unit value, or the
  panic of \<^verbatim>\<open>Queue.Add\<close>.
\<close>

record ('k, 'o) Schedule =
  sched_q :: "('k, 'o) Queue"

definition NewSchedule :: "('k, 'o) Schedule" where
  "NewSchedule = \<lparr>sched_q = New\<rparr>"

definition Schedule_Next :: "'h Clock \<Rightarrow> ('k, 'o) Schedule \<Rightarrow> 'h option" where
  "Schedule_Next clk s = Next clk (sched_q s)"

definition Schedule_Ready ::
  "Time \<Rightarrow> ('k, 'o) Schedule \<Rightarrow> 'o list \<times> ('k, 'o) Schedule" where
  "Schedule_Ready now s =
     (let readyItems = Ready now (sched_q s)
      in (fst readyItems, s\<lparr>sched_q := snd readyItems\<rparr>))"

definition Schedule_Add ::
  "('o \<Rightarrow> 'k) \<Rightarrow> ('o \<Rightarrow> Duration \<times> 'o) \<Rightarrow> 'h Clock \<Rightarrow> 'o \<Rightarrow> ('k, 'o) Schedule \<Rightarrow>
     ('k error + unit) \<times> ('k, 'o) Schedule" where
  "Schedule_Add Key_of Delay_of clk op s =
     (let key = Key_of op;
          d = Delay_of op;
          delay = fst d;
          r = Queue_Add key (snd d) (Time_Add (Now clk) delay) (sched_q s)
      in (fst r, s\<lparr>sched_q := snd r\<rparr>))"

definition Schedule_Remove ::
  "'k \<Rightarrow> ('k, 'o) Schedule \<Rightarrow> ('k error + unit) \<times> ('k, 'o) Schedule" where
  "Schedule_Remove key s =
     (let r = Queue_Remove key (sched_q s) in (fst r, s\<lparr>sched_q := snd r\<rparr>))"

subsection \<open>Sequences of calls\<close>

text \<open>
  The states a queue can be in are those that calls of \<^verbatim>\<open>Add\<close>, \<^verbatim>\<open>Remove\<close> and
  \<^verbatim>\<open>Ready\<close> reach from \<^verbatim>\<open>New\<close>. A call that panics leaves the queue as it was.
\<close>

datatype ('k, 'v) call = CallAdd 'k 'v Time | CallRemove 'k | CallReady Time

fun step :: "('k, 'v) call \<Rightarrow> ('k, 'v) Queue \<Rightarrow> ('k, 'v) Queue" where
  "step (CallAdd k v t) s = snd (Queue_Add k v t s)"
| "step (CallRemove k) s = snd (Queue_Remove k s)"
| "step (CallReady now) s = snd (Ready now s)"

fun run :: "('k, 'v) call list \<Rightarrow> ('k, 'v) Queue \<Rightarrow> ('k, 'v) Queue" where
  "run [] s = s"
| "run (c # cs) s = run cs (step c s)"

section \<open>Heap order on lists of deadlines\<close>

definition parent :: "nat \<Rightarrow> nat" where
  "parent c = (c - 1) div 2"

definition heap_upto :: "int list \<Rightarrow> nat \<Rightarrow> bool" where
  "heap_upto ds n \<longleftrightarrow> (\<forall>c. 0 < c \<and> c < n \<longrightarrow> ds ! parent c \<le> ds ! c)"

definition up_inv :: "int list \<Rightarrow> nat \<Rightarrow> nat \<Rightarrow> bool" where
  "up_inv ds n j \<longleftrightarrow>
     (\<forall>c. 0 < c \<and> c < n \<and> c \<noteq> j \<longrightarrow> ds ! parent c \<le> ds ! c) \<and>
     (0 < j \<longrightarrow> (\<forall>c. 0 < c \<and> c < n \<and> parent c = j \<longrightarrow> ds ! parent j \<le> ds ! c))"

definition down_inv :: "int list \<Rightarrow> nat \<Rightarrow> nat \<Rightarrow> bool" where
  "down_inv ds n i \<longleftrightarrow>
     (\<forall>c. 0 < c \<and> c < n \<and> parent c \<noteq> i \<longrightarrow> ds ! parent c \<le> ds ! c) \<and>
     (0 < i \<longrightarrow> (\<forall>c. 0 < c \<and> c < n \<and> parent c = i \<longrightarrow> ds ! parent i \<le> ds ! c))"

lemma parent_less: "0 < c \<Longrightarrow> parent c < c"
  unfolding parent_def by arith

lemma parent_eq_iff: "0 < c \<Longrightarrow> parent c = i \<longleftrightarrow> c = 2 * i + 1 \<or> c = 2 * i + 2"
  unfolding parent_def by arith

lemma swap_nth:
  "i < length ds \<Longrightarrow> j < length ds \<Longrightarrow>
     ds[i := ds ! j, j := ds ! i] ! k =
       (if k = j then ds ! i else if k = i then ds ! j else ds ! k)"
  by (simp add: nth_list_update)

lemma up_inv_step:
  assumes inv: "up_inv ds n j" and j: "j < n" "n \<le> length ds" "0 < j"
    and lt: "ds ! j < ds ! parent j"
  shows "up_inv (ds[parent j := ds ! j, j := ds ! parent j]) n (parent j)"
proof -
  define p where "p = parent j"
  have pj: "p < j" using j by (simp add: p_def parent_less)
  define ds' where "ds' = ds[p := ds ! j, j := ds ! p]"
  have nth: "\<And>k. ds' ! k = (if k = j then ds ! p else if k = p then ds ! j else ds ! k)"
    unfolding ds'_def using j pj by (intro swap_nth) auto
  have lt': "ds ! j < ds ! p" using lt by (simp add: p_def)
  have c1: "\<And>c. 0 < c \<Longrightarrow> c < n \<Longrightarrow> c \<noteq> j \<Longrightarrow> ds ! parent c \<le> ds ! c"
    using inv by (simp add: up_inv_def)
  have c2: "\<And>c. 0 < c \<Longrightarrow> c < n \<Longrightarrow> parent c = j \<Longrightarrow> ds ! p \<le> ds ! c"
    using inv j by (simp add: up_inv_def p_def)
  have a: "ds' ! parent c \<le> ds' ! c" if c: "0 < c" "c < n" "c \<noteq> p" for c
  proof -
    have pc: "parent c < c" using c by (simp add: parent_less)
    consider "c = j" | "c \<noteq> j" "parent c = j" | "c \<noteq> j" "parent c \<noteq> j" "parent c = p"
      | "c \<noteq> j" "parent c \<noteq> j" "parent c \<noteq> p" by blast
    then show ?thesis
    proof cases
      case 1
      then show ?thesis using lt' pj by (simp add: nth p_def [symmetric])
    next
      case 2
      then show ?thesis using c c2 [of c] pj by (simp add: nth)
    next
      case 3
      then show ?thesis using c c1 [of c] lt' pj by (simp add: nth)
    next
      case 4
      then show ?thesis using c c1 [of c] by (simp add: nth)
    qed
  qed
  have b: "ds' ! parent p \<le> ds' ! c" if c: "0 < p" "0 < c" "c < n" "parent c = p" for c
  proof -
    have pp: "parent p < p" using c by (simp add: parent_less)
    have pn: "p < n" using pj j by simp
    have pl: "ds ! parent p \<le> ds ! p" using c1 [of p] c pj pn by simp
    show ?thesis
    proof (cases "c = j")
      case True
      then show ?thesis using pl pp pj by (simp add: nth)
    next
      case False
      then have "ds ! p \<le> ds ! c" using c c1 [of c] by simp
      moreover have "c \<noteq> p" using c parent_less [of c] by auto
      ultimately show ?thesis using pl pp pj c False by (simp add: nth)
    qed
  qed
  show ?thesis
    unfolding up_inv_def p_def [symmetric] ds'_def [symmetric] using a b by blast
qed

lemma down_inv_step:
  assumes inv: "down_inv ds n i" and n: "n \<le> length ds"
    and j: "j < n" "parent j = i" "0 < j"
    and sm: "\<And>c. 0 < c \<Longrightarrow> c < n \<Longrightarrow> parent c = i \<Longrightarrow> ds ! j \<le> ds ! c"
    and lt: "ds ! j < ds ! i"
  shows "down_inv (ds[i := ds ! j, j := ds ! i]) n j"
proof -
  have ij: "i < j" using j parent_less [of j] by auto
  define ds' where "ds' = ds[i := ds ! j, j := ds ! i]"
  have nth: "\<And>k. ds' ! k = (if k = j then ds ! i else if k = i then ds ! j else ds ! k)"
    unfolding ds'_def using j ij n by (intro swap_nth) auto
  have c1: "\<And>c. 0 < c \<Longrightarrow> c < n \<Longrightarrow> parent c \<noteq> i \<Longrightarrow> ds ! parent c \<le> ds ! c"
    using inv by (simp add: down_inv_def)
  have c2: "\<And>c. 0 < i \<Longrightarrow> 0 < c \<Longrightarrow> c < n \<Longrightarrow> parent c = i \<Longrightarrow> ds ! parent i \<le> ds ! c"
    using inv by (simp add: down_inv_def)
  have a: "ds' ! parent c \<le> ds' ! c" if c: "0 < c" "c < n" "parent c \<noteq> j" for c
  proof -
    have pc: "parent c < c" using c by (simp add: parent_less)
    consider "parent c = i" "c = j" | "parent c = i" "c \<noteq> j"
      | "parent c \<noteq> i" "c = i" | "parent c \<noteq> i" "c \<noteq> i" by blast
    then show ?thesis
    proof cases
      case 1
      then show ?thesis using lt ij by (simp add: nth)
    next
      case 2
      then show ?thesis using c sm [of c] ij pc by (simp add: nth)
    next
      case 3
      then have "0 < i" using c by simp
      then have "ds ! parent i \<le> ds ! j" using c2 [of j] j by simp
      then show ?thesis using 3 c ij pc by (simp add: nth)
    next
      case 4
      then have "c \<noteq> j" using j by auto
      then show ?thesis using 4 c c1 [of c] by (simp add: nth)
    qed
  qed
  have b: "ds' ! parent j \<le> ds' ! c" if c: "0 < c" "c < n" "parent c = j" for c
  proof -
    have "j < c" using c parent_less [of c] by auto
    then have "c \<noteq> j" "c \<noteq> i" using ij by auto
    moreover have "ds ! j \<le> ds ! c" using c1 [of c] c ij by simp
    ultimately show ?thesis using c j ij by (simp add: nth)
  qed
  show ?thesis
    unfolding down_inv_def ds'_def [symmetric] using a b j by blast
qed

lemma heap_upto_up_inv: "heap_upto ds n \<Longrightarrow> j < n \<Longrightarrow> up_inv ds n j"
  unfolding heap_upto_def up_inv_def
  by (metis order_trans bot_nat_0.not_eq_extremum)

lemma up_inv_heap:
  "up_inv ds n j \<Longrightarrow> j = 0 \<or> ds ! parent j \<le> ds ! j \<Longrightarrow> heap_upto ds n"
  unfolding heap_upto_def up_inv_def by (metis less_nat_zero_code)

lemma down_inv_heap:
  "down_inv ds n i \<Longrightarrow> (\<And>c. 0 < c \<Longrightarrow> c < n \<Longrightarrow> parent c = i \<Longrightarrow> ds ! i \<le> ds ! c) \<Longrightarrow>
     heap_upto ds n"
  unfolding heap_upto_def down_inv_def by metis

lemma heap_upto_root:
  "heap_upto ds n \<Longrightarrow> k < n \<Longrightarrow> ds ! 0 \<le> ds ! k"
proof (induction k rule: less_induct)
  case (less k)
  show ?case
  proof (cases "k = 0")
    case True
    then show ?thesis by simp
  next
    case False
    then have "parent k < k" by (simp add: parent_less)
    moreover from less.prems False have "ds ! parent k \<le> ds ! k"
      by (simp add: heap_upto_def)
    ultimately show ?thesis
      using less.IH [of "parent k"] less.prems by simp
  qed
qed

lemma heap_upto_mono: "heap_upto ds n \<Longrightarrow> k \<le> n \<Longrightarrow> heap_upto ds k"
  by (simp add: heap_upto_def)

lemma heap_upto_take: "heap_upto ds n \<Longrightarrow> n \<le> length ds \<Longrightarrow> heap_upto (take n ds) n"
proof -
  assume h: "heap_upto ds n" and n: "n \<le> length ds"
  have "take n ds ! parent c \<le> take n ds ! c" if c: "0 < c" "c < n" for c
  proof -
    have "parent c < n" using parent_less [of c] c by simp
    then show ?thesis using h c by (simp add: heap_upto_def)
  qed
  then show ?thesis by (simp add: heap_upto_def)
qed

lemma down_inv_0: "down_inv ds 0 i"
  by (simp add: down_inv_def)

lemma remove_nth:
  assumes "i < n" "n < length ds"
  shows "ds[i := ds ! n, n := ds ! i] ! k =
     (if k = n then ds ! i else if k = i then ds ! n else ds ! k)"
  using assms by (intro swap_nth) auto

lemma remove_down_inv:
  assumes hp: "heap_upto ds (Suc n)" and i: "i < n" "n < length ds"
    and ge: "i = 0 \<or> ds ! parent i \<le> ds ! n"
  shows "down_inv (ds[i := ds ! n, n := ds ! i]) n i"
proof -
  define ds' where "ds' = ds[i := ds ! n, n := ds ! i]"
  have nth: "\<And>k. ds' ! k = (if k = n then ds ! i else if k = i then ds ! n else ds ! k)"
    unfolding ds'_def using i by (rule remove_nth)
  have h: "\<And>c. 0 < c \<Longrightarrow> c \<le> n \<Longrightarrow> ds ! parent c \<le> ds ! c"
    using hp by (simp add: heap_upto_def)
  have a: "ds' ! parent c \<le> ds' ! c" if c: "0 < c" "c < n" "parent c \<noteq> i" for c
  proof -
    have pc: "parent c < c" using c by (simp add: parent_less)
    show ?thesis
    proof (cases "c = i")
      case True
      then show ?thesis using c pc ge i by (auto simp: nth)
    next
      case False
      then show ?thesis using c pc h [of c] by (simp add: nth)
    qed
  qed
  have b: "ds' ! parent i \<le> ds' ! c" if c: "0 < i" "0 < c" "c < n" "parent c = i" for c
  proof -
    have pc: "i < c" using c parent_less [of c] by auto
    have pi: "parent i < i" using c by (simp add: parent_less)
    have "ds ! parent i \<le> ds ! i" using h [of i] c i by simp
    moreover have "ds ! i \<le> ds ! c" using h [of c] c by simp
    ultimately show ?thesis using pc pi c i by (simp add: nth)
  qed
  show ?thesis
    unfolding down_inv_def ds'_def [symmetric] using a b by blast
qed

lemma remove_up_inv:
  assumes hp: "heap_upto ds (Suc n)" and i: "i < n" "n < length ds"
    and lt: "0 < i" "ds ! n < ds ! parent i"
  shows "up_inv (ds[i := ds ! n, n := ds ! i]) n i \<and>
     (\<forall>c. 0 < c \<and> c < n \<and> parent c = i \<longrightarrow>
        ds[i := ds ! n, n := ds ! i] ! i \<le> ds[i := ds ! n, n := ds ! i] ! c)"
proof -
  define ds' where "ds' = ds[i := ds ! n, n := ds ! i]"
  have nth: "\<And>k. ds' ! k = (if k = n then ds ! i else if k = i then ds ! n else ds ! k)"
    unfolding ds'_def using i by (rule remove_nth)
  have h: "\<And>c. 0 < c \<Longrightarrow> c \<le> n \<Longrightarrow> ds ! parent c \<le> ds ! c"
    using hp by (simp add: heap_upto_def)
  have pi: "parent i < i" using lt by (simp add: parent_less)
  have pil: "ds ! parent i \<le> ds ! i" using h [of i] lt i by simp
  have ch: "ds' ! i \<le> ds' ! c" if c: "0 < c" "c < n" "parent c = i" for c
  proof -
    have pc: "i < c" using c parent_less [of c] by auto
    have "ds ! i \<le> ds ! c" using h [of c] c by simp
    then show ?thesis using pc c i lt pil by (simp add: nth)
  qed
  have a: "ds' ! parent c \<le> ds' ! c" if c: "0 < c" "c < n" "c \<noteq> i" for c
  proof (cases "parent c = i")
    case True
    then show ?thesis using ch [of c] c by simp
  next
    case False
    have pc: "parent c < c" using c by (simp add: parent_less)
    then show ?thesis using False c h [of c] by (simp add: nth)
  qed
  have b: "ds' ! parent i \<le> ds' ! c" if c: "0 < c" "c < n" "parent c = i" for c
  proof -
    have pc: "i < c" using c parent_less [of c] by auto
    have "ds ! i \<le> ds ! c" using h [of c] c by simp
    then show ?thesis using pc pi pil c i by (simp add: nth)
  qed
  show ?thesis
    unfolding up_inv_def ds'_def [symmetric] using a b ch by blast
qed

lemma push_up_inv:
  assumes "heap_upto ds n" "length ds = n"
  shows "up_inv (ds @ [t]) (Suc n) n"
proof -
  have a: "(ds @ [t]) ! parent c \<le> (ds @ [t]) ! c" if c: "0 < c" "c < Suc n" "c \<noteq> n" for c
  proof -
    have "parent c < c" using c by (simp add: parent_less)
    then show ?thesis using assms c by (simp add: nth_append heap_upto_def)
  qed
  have b: "\<not> (0 < c \<and> c < Suc n \<and> parent c = n)" for c
    using parent_less [of c] by auto
  show ?thesis unfolding up_inv_def using a b by blast
qed

section \<open>The heap algorithms keep the items and restore the order\<close>

text \<open>
  \<open>core\<close> is what an item is apart from its position; \<open>deadlines\<close> lists the deadlines in
  slice order; \<open>items_wf\<close> says that the slice has no pointer twice and that each item
  records its own position; \<open>same_items\<close> relates two states that hold the same items,
  possibly in another order and with other recorded positions.
\<close>

definition core :: "('k, 'v) queueItem \<Rightarrow> 'k \<times> 'v \<times> Time" where
  "core it = (item_key it, item_value it, item_t it)"

definition deadlines :: "('k, 'v) queueItems \<Rightarrow> Time list" where
  "deadlines h = map (\<lambda>a. item_t (deref (snd h) a)) (fst h)"

definition items_wf :: "('k, 'v) queueItems \<Rightarrow> bool" where
  "items_wf h \<longleftrightarrow> distinct (fst h) \<and>
     (\<forall>k < length (fst h). \<exists>it. snd h (fst h ! k) = Some it \<and> item_i it = k)"

definition same_items :: "('k, 'v) queueItems \<Rightarrow> ('k, 'v) queueItems \<Rightarrow> bool" where
  "same_items h h' \<longleftrightarrow>
     mset (fst h') = mset (fst h) \<and>
     (\<forall>a. map_option core (snd h' a) = map_option core (snd h a)) \<and>
     (\<forall>a. a \<notin> set (fst h) \<longrightarrow> snd h' a = snd h a)"

lemma same_items_refl: "same_items h h"
  by (simp add: same_items_def)

lemma same_items_trans: "same_items h1 h2 \<Longrightarrow> same_items h2 h3 \<Longrightarrow> same_items h1 h3"
  unfolding same_items_def by (metis mset_eq_setD)

lemma same_items_length: "same_items h h' \<Longrightarrow> length (fst h') = length (fst h)"
  unfolding same_items_def by (metis size_mset)

lemma same_items_set: "same_items h h' \<Longrightarrow> set (fst h') = set (fst h)"
  unfolding same_items_def by (metis mset_eq_setD)

lemma deref_set_i_t: "item_t (deref (set_i \<sigma> a n) b) = item_t (deref \<sigma> b)"
  by (simp add: set_i_def deref_def)

lemma length_deadlines [simp]: "length (deadlines h) = length (fst h)"
  by (simp add: deadlines_def)

lemma deadlines_Swap:
  "i < length (fst h) \<Longrightarrow> j < length (fst h) \<Longrightarrow>
     deadlines (Swap h i j) = (deadlines h)[i := deadlines h ! j, j := deadlines h ! i]"
  by (cases h) (simp add: deadlines_def Swap_def Let_def deref_set_i_t map_update)

lemma Less_deadlines:
  "i < length (fst h) \<Longrightarrow> j < length (fst h) \<Longrightarrow> Less h i j \<longleftrightarrow> deadlines h ! i < deadlines h ! j"
  by (simp add: Less_def deadlines_def Time_Before_def)

lemma set_i_apply:
  "set_i \<sigma> a n b = (if b = a then Some ((deref \<sigma> a)\<lparr>item_i := n\<rparr>) else \<sigma> b)"
  by (simp add: set_i_def)

lemma snd_Swap:
  "i < length xs \<Longrightarrow> j < length xs \<Longrightarrow>
     snd (Swap (xs, \<sigma>) i j) = set_i (set_i \<sigma> (xs ! j) i) (xs ! i) j"
  by (cases "i = j") (simp_all add: Swap_def Let_def)

lemma Swap_store_apply:
  assumes "i < length xs" "j < length xs" "\<sigma> (xs ! i) = Some x" "\<sigma> (xs ! j) = Some y"
  shows "snd (Swap (xs, \<sigma>) i j) b =
     (if b = xs ! i then Some (x\<lparr>item_i := j\<rparr>)
      else if b = xs ! j then Some (y\<lparr>item_i := i\<rparr>) else \<sigma> b)"
proof (cases "xs ! i = xs ! j")
  case True
  with assms show ?thesis
    by (simp add: snd_Swap set_i_apply deref_def)
next
  case False
  with assms show ?thesis
    by (simp add: snd_Swap set_i_apply deref_def)
qed

lemma items_wf_Swap:
  assumes "items_wf h" "i < length (fst h)" "j < length (fst h)"
  shows "items_wf (Swap h i j)"
proof -
  obtain xs \<sigma> where h: "h = (xs, \<sigma>)" by (cases h)
  from assms h have d: "distinct xs" and ij: "i < length xs" "j < length xs"
    by (simp_all add: items_wf_def)
  from assms h have ix: "\<And>k. k < length xs \<Longrightarrow> \<exists>it. \<sigma> (xs ! k) = Some it \<and> item_i it = k"
    by (simp add: items_wf_def)
  from ix [OF ij(1)] obtain x where x: "\<sigma> (xs ! i) = Some x" by blast
  from ix [OF ij(2)] obtain y where y: "\<sigma> (xs ! j) = Some y" by blast
  note st = Swap_store_apply [OF ij x y]
  have neq: "\<And>k l. k < length xs \<Longrightarrow> l < length xs \<Longrightarrow> xs ! k = xs ! l \<longleftrightarrow> k = l"
    using d by (simp add: nth_eq_iff_index_eq)
  have "distinct (xs[i := xs ! j, j := xs ! i])"
    using d ij by simp
  moreover have "\<exists>it. snd (Swap (xs, \<sigma>) i j) (fst (Swap (xs, \<sigma>) i j) ! k) = Some it \<and> item_i it = k"
    if k: "k < length xs" for k
  proof -
    consider "k = j" | "k \<noteq> j" "k = i" | "k \<noteq> j" "k \<noteq> i" by blast
    then show ?thesis
    proof cases
      case 1
      then show ?thesis using ij by (simp add: fst_Swap st)
    next
      case 2
      then show ?thesis using ij neq [OF ij(2) ij(1)] by (simp add: fst_Swap st)
    next
      case 3
      then show ?thesis using ij k ix [OF k] neq [OF k ij(1)] neq [OF k ij(2)]
        by (simp add: fst_Swap st)
    qed
  qed
  ultimately show ?thesis
    using h by (simp add: items_wf_def fst_Swap)
qed

lemma same_items_Swap:
  assumes "items_wf h" "i < length (fst h)" "j < length (fst h)"
  shows "same_items h (Swap h i j)"
proof -
  obtain xs \<sigma> where h: "h = (xs, \<sigma>)" by (cases h)
  from assms h have ij: "i < length xs" "j < length xs"
    by (simp_all add: items_wf_def)
  from assms h have ix: "\<And>k. k < length xs \<Longrightarrow> \<exists>it. \<sigma> (xs ! k) = Some it \<and> item_i it = k"
    by (simp add: items_wf_def)
  from ix [OF ij(1)] obtain x where x: "\<sigma> (xs ! i) = Some x" by blast
  from ix [OF ij(2)] obtain y where y: "\<sigma> (xs ! j) = Some y" by blast
  note st = Swap_store_apply [OF ij x y]
  have m: "mset (xs[i := xs ! j, j := xs ! i]) = mset xs"
    by (rule mset_swap [OF ij(2) ij(1)])
  have c: "map_option core (snd (Swap (xs, \<sigma>) i j) a) = map_option core (\<sigma> a)" for a
    using x y by (simp add: st core_def)
  have o: "snd (Swap (xs, \<sigma>) i j) a = \<sigma> a" if "a \<notin> set xs" for a
  proof -
    from that ij have "a \<noteq> xs ! i" "a \<noteq> xs ! j" by auto
    then show ?thesis by (simp add: st)
  qed
  show ?thesis
    using h m c o by (simp add: same_items_def fst_Swap)
qed

lemma core_deref:
  "map_option core (\<sigma>' b) = map_option core (\<sigma> b) \<Longrightarrow> core (deref \<sigma>' b) = core (deref \<sigma> b)"
  by (cases "\<sigma> b"; cases "\<sigma>' b") (simp_all add: deref_def)

lemma core_eq:
  "core x = core y \<longleftrightarrow>
     item_key x = item_key y \<and> item_value x = item_value y \<and> item_t x = item_t y"
  by (simp add: core_def)

lemma deadlines_cong:
  "(\<And>a. a \<in> set xs \<Longrightarrow> map_option core (\<sigma>' a) = map_option core (\<sigma> a)) \<Longrightarrow>
     deadlines (xs, \<sigma>') = deadlines (xs, \<sigma>)"
  unfolding deadlines_def using core_deref [of \<sigma>' _ \<sigma>] by (auto simp: core_eq)

lemma deadlines_take: "deadlines (take n (fst h), snd h) = take n (deadlines h)"
  by (simp add: deadlines_def take_map)

lemma up_props:
  "items_wf h \<Longrightarrow> j < length (fst h) \<Longrightarrow>
     items_wf (up h j) \<and> same_items h (up h j) \<and> (\<forall>k>j. fst (up h j) ! k = fst h ! k)"
proof (induction h j rule: up.induct)
  case (1 h j)
  show ?case
  proof (cases "(j - 1) div 2 = j \<or> \<not> Less h j ((j - 1) div 2)")
    case True
    then have "up h j = h" by (subst up.simps) (simp add: Let_def)
    then show ?thesis using "1.prems" by (simp add: same_items_refl)
  next
    case False
    define i where "i = (j - 1) div 2"
    from False have ne: "i \<noteq> j" by (simp add: i_def)
    then have ij: "i < j" unfolding i_def by arith
    have eq: "up h j = up (Swap h i j) i"
      using False by (subst up.simps) (simp add: Let_def i_def)
    have il: "i < length (fst h)" using ij "1.prems" by simp
    have w: "items_wf (Swap h i j)" using "1.prems" il by (intro items_wf_Swap)
    have s: "same_items h (Swap h i j)" using "1.prems" il by (intro same_items_Swap)
    have ih: "items_wf (up (Swap h i j) i) \<and> same_items (Swap h i j) (up (Swap h i j) i) \<and>
        (\<forall>k>i. fst (up (Swap h i j) i) ! k = fst (Swap h i j) ! k)"
      using "1.IH" [OF i_def] False w il by (simp add: i_def length_Swap)
    then have "same_items h (up (Swap h i j) i)"
      using s by (blast intro: same_items_trans)
    moreover have "fst (Swap h i j) ! k = fst h ! k" if "j < k" for k
      using that ij by (cases h) (simp add: fst_Swap)
    ultimately show ?thesis
      using eq ih ij by simp
  qed
qed

lemma up_heap:
  "up_inv (deadlines h) n j \<Longrightarrow> j < n \<Longrightarrow> n \<le> length (fst h) \<Longrightarrow> heap_upto (deadlines (up h j)) n"
proof (induction h j rule: up.induct)
  case (1 h j)
  show ?case
  proof (cases "(j - 1) div 2 = j \<or> \<not> Less h j ((j - 1) div 2)")
    case True
    then have eq: "up h j = h" by (subst up.simps) (simp add: Let_def)
    have pl: "parent j < length (fst h)"
      using "1.prems" unfolding parent_def by arith
    from True have "j = 0 \<or> deadlines h ! parent j \<le> deadlines h ! j"
    proof
      assume "(j - 1) div 2 = j"
      then have "j = 0" by arith
      then show ?thesis by simp
    next
      assume "\<not> Less h j ((j - 1) div 2)"
      then show ?thesis
        using pl "1.prems" by (simp add: Less_deadlines parent_def)
    qed
    with "1.prems" show ?thesis
      by (simp add: eq up_inv_heap)
  next
    case False
    define i where "i = (j - 1) div 2"
    have ip: "i = parent j" by (simp add: i_def parent_def)
    from False have ne: "i \<noteq> j" by (simp add: i_def)
    then have ij: "i < j" unfolding i_def by arith
    then have j0: "0 < j" by simp
    have il: "i < length (fst h)" "j < length (fst h)" using ij "1.prems" by simp_all
    have eq: "up h j = up (Swap h i j) i"
      using False by (subst up.simps) (simp add: Let_def i_def)
    from False have "Less h j i" by (simp add: i_def)
    then have lt: "deadlines h ! j < deadlines h ! parent j"
      using il by (simp add: Less_deadlines ip)
    have "up_inv ((deadlines h)[parent j := deadlines h ! j, j := deadlines h ! parent j]) n (parent j)"
      using "1.prems" j0 lt by (intro up_inv_step) simp_all
    then have "up_inv (deadlines (Swap h i j)) n i"
      using il by (simp add: deadlines_Swap ip)
    then have "heap_upto (deadlines (up (Swap h i j) i)) n"
      using "1.IH" [OF i_def] False ij "1.prems" by (simp add: i_def length_Swap)
    then show ?thesis by (simp add: eq)
  qed
qed

lemma child_facts:
  "2 * i + 1 < n \<Longrightarrow>
     child h i n < n \<and> i < child h i n \<and> 0 < child h i n \<and> parent (child h i n) = i"
  by (auto simp: child_def parent_def)

lemma down_props:
  "items_wf h \<Longrightarrow> n \<le> length (fst h) \<Longrightarrow>
     items_wf (fst (down_loop h i n)) \<and> same_items h (fst (down_loop h i n)) \<and>
     (\<forall>k\<ge>n. fst (fst (down_loop h i n)) ! k = fst h ! k)"
proof (induction h i n rule: down_loop_induct)
  case (step h i n)
  show ?case
  proof (cases "2 * i + 1 < n \<and> Less h (child h i n) i")
    case False
    then have "down_loop h i n = (h, i)" by (intro down_loop_stop) auto
    then show ?thesis using step.prems by (simp add: same_items_refl)
  next
    case True
    define j where "j = child h i n"
    from True have cf: "j < n" "i < j" using child_facts [of i n h] by (simp_all add: j_def)
    have eq: "down_loop h i n = down_loop (Swap h i j) j n"
      using True by (simp add: down_loop_rec j_def)
    have il: "i < length (fst h)" "j < length (fst h)" using cf step.prems by simp_all
    have w: "items_wf (Swap h i j)" using step.prems il by (intro items_wf_Swap)
    have s: "same_items h (Swap h i j)" using step.prems il by (intro same_items_Swap)
    have ih: "items_wf (fst (down_loop (Swap h i j) j n)) \<and>
        same_items (Swap h i j) (fst (down_loop (Swap h i j) j n)) \<and>
        (\<forall>k\<ge>n. fst (fst (down_loop (Swap h i j) j n)) ! k = fst (Swap h i j) ! k)"
      using step.IH True w step.prems by (simp add: j_def length_Swap)
    then have "same_items h (fst (down_loop (Swap h i j) j n))"
      using s by (blast intro: same_items_trans)
    moreover have "fst (Swap h i j) ! k = fst h ! k" if "n \<le> k" for k
      using that cf by (cases h) (simp add: fst_Swap)
    ultimately show ?thesis
      using eq ih by simp
  qed
qed

lemma child_least:
  assumes "2 * i + 1 < n" "n \<le> length (fst h)" "0 < c" "c < n" "parent c = i"
  shows "deadlines h ! child h i n \<le> deadlines h ! c"
proof -
  from assms have "c = 2 * i + 1 \<or> c = 2 * i + 2" by (simp add: parent_eq_iff)
  then show ?thesis
    using assms by (auto simp: child_def Less_deadlines)
qed

lemma down_heap:
  "down_inv (deadlines h) n i \<Longrightarrow> n \<le> length (fst h) \<Longrightarrow>
     heap_upto (deadlines (fst (down_loop h i n))) n"
proof (induction h i n rule: down_loop_induct)
  case (step h i n)
  show ?case
  proof (cases "2 * i + 1 < n")
    case False
    then have eq: "down_loop h i n = (h, i)" by (intro down_loop_stop) auto
    have "heap_upto (deadlines h) n"
    proof (rule down_inv_heap [OF step.prems(1)])
      fix c assume "0 < c" "c < n" "parent c = i"
      then have False using False by (auto simp: parent_eq_iff)
      then show "deadlines h ! i \<le> deadlines h ! c" ..
    qed
    then show ?thesis by (simp add: eq)
  next
    case True
    define j where "j = child h i n"
    from True have cf: "j < n" "i < j" "0 < j" "parent j = i"
      using child_facts [of i n h] by (simp_all add: j_def)
    have il: "i < length (fst h)" "j < length (fst h)" using cf step.prems by simp_all
    have least: "\<And>c. 0 < c \<Longrightarrow> c < n \<Longrightarrow> parent c = i \<Longrightarrow> deadlines h ! j \<le> deadlines h ! c"
      unfolding j_def using True step.prems(2) by (rule child_least)
    show ?thesis
    proof (cases "Less h j i")
      case False
      then have eq: "down_loop h i n = (h, i)" by (intro down_loop_stop) (simp add: j_def)
      from False have ij: "deadlines h ! i \<le> deadlines h ! j" using il by (simp add: Less_deadlines)
      have "heap_upto (deadlines h) n"
      proof (rule down_inv_heap [OF step.prems(1)])
        fix c assume "0 < c" "c < n" "parent c = i"
        then have "deadlines h ! j \<le> deadlines h ! c" by (rule least)
        with ij show "deadlines h ! i \<le> deadlines h ! c" by (rule order_trans)
      qed
      then show ?thesis by (simp add: eq)
    next
      case L: True
      have eq: "down_loop h i n = down_loop (Swap h i j) j n"
        using True L by (simp add: down_loop_rec j_def)
      from L have lt: "deadlines h ! j < deadlines h ! i" using il by (simp add: Less_deadlines)
      have nl: "n \<le> length (deadlines h)" using step.prems(2) by simp
      have "down_inv ((deadlines h)[i := deadlines h ! j, j := deadlines h ! i]) n j"
        by (rule down_inv_step [OF step.prems(1) nl cf(1) cf(4) cf(3) least lt])
      then have "down_inv (deadlines (Swap h i j)) n j"
        using il by (simp add: deadlines_Swap)
      then have "heap_upto (deadlines (fst (down_loop (Swap h i j) j n))) n"
        using step.IH True L step.prems by (simp add: j_def length_Swap)
      then show ?thesis by (simp add: eq)
    qed
  qed
qed

lemma down_noop:
  assumes "n \<le> length (fst h)"
    and "\<And>c. 0 < c \<Longrightarrow> c < n \<Longrightarrow> parent c = i \<Longrightarrow> deadlines h ! i \<le> deadlines h ! c"
  shows "down_loop h i n = (h, i)"
proof (cases "2 * i + 1 < n")
  case False
  then show ?thesis by (intro down_loop_stop) auto
next
  case True
  then have cf: "child h i n < n" "i < child h i n" "0 < child h i n" "parent (child h i n) = i"
    using child_facts [of i n h] by simp_all
  then have "deadlines h ! i \<le> deadlines h ! child h i n" using assms(2) by simp
  then have "\<not> Less h (child h i n) i"
    using cf assms(1) by (simp add: Less_deadlines)
  then show ?thesis by (intro down_loop_stop) simp
qed

definition removed ::
  "('k, 'v) queueItems \<Rightarrow> addr \<Rightarrow> ('k, 'v) queueItems \<Rightarrow> bool" where
  "removed h x h' \<longleftrightarrow>
     items_wf h' \<and> heap_upto (deadlines h') (length (fst h')) \<and>
     mset (fst h') = mset (fst h) - {#x#} \<and>
     (\<forall>a. map_option core (snd h' a) = map_option core (snd h a)) \<and>
     (\<forall>a. a \<notin> set (fst h) \<longrightarrow> snd h' a = snd h a)"

lemma Pop_removed:
  assumes w: "items_wf h3" and s: "same_items h h3" and l: "length (fst h) = Suc n"
    and hp: "heap_upto (deadlines h3) n"
  shows "fst (Pop h3) = fst h3 ! n \<and> removed h (fst h3 ! n) (snd (Pop h3))"
proof -
  have l3: "length (fst h3) = Suc n" using s l by (simp add: same_items_length)
  have p: "Pop h3 = (fst h3 ! n, (take n (fst h3), snd h3))"
    by (simp add: Pop_def Let_def l3)
  have xs: "fst h3 = take n (fst h3) @ [fst h3 ! n]"
    using l3 by (metis lessI take_Suc_conv_app_nth take_all order_refl)
  have "items_wf (take n (fst h3), snd h3)"
    using w l3 unfolding items_wf_def by (auto simp: distinct_take)
  moreover have "heap_upto (deadlines (take n (fst h3), snd h3)) (length (take n (fst h3)))"
    using hp l3 by (simp add: deadlines_take heap_upto_take)
  moreover have "mset (take n (fst h3)) = mset (fst h) - {#fst h3 ! n#}"
  proof -
    have "mset (fst h) = mset (take n (fst h3)) + {#fst h3 ! n#}"
      using s xs unfolding same_items_def by (metis mset.simps(2) mset_append mset.simps(1) add.commute union_mset_add_mset_left empty_neutral(1))
    then show ?thesis by simp
  qed
  ultimately show ?thesis
    using s unfolding removed_def p same_items_def by simp
qed

lemma fix_after_swap:
  assumes w: "items_wf h" and hp: "heap_upto (deadlines h) (Suc n)" and l: "length (fst h) = Suc n"
    and i: "i < n"
  defines "h1 \<equiv> Swap h i n"
  defines "h3 \<equiv> (if \<not> snd (down h1 i n) then up (fst (down h1 i n)) i else fst (down h1 i n))"
  shows "items_wf h3 \<and> same_items h h3 \<and> heap_upto (deadlines h3) n \<and> fst h3 ! n = fst h ! i"
proof -
  have il: "i < length (fst h)" "n < length (fst h)" using i l by simp_all
  have w1: "items_wf h1" unfolding h1_def using w il by (rule items_wf_Swap)
  have s1: "same_items h h1" unfolding h1_def using w il by (rule same_items_Swap)
  have l1: "length (fst h1) = Suc n" by (simp add: h1_def length_Swap l)
  have t1: "deadlines h1 = (deadlines h)[i := deadlines h ! n, n := deadlines h ! i]"
    unfolding h1_def using il by (rule deadlines_Swap)
  have x1: "fst h1 ! n = fst h ! i"
    unfolding h1_def using il i by (cases h) (simp add: fst_Swap)
  define h2 where "h2 = fst (down_loop h1 i n)"
  have nl1: "n \<le> length (fst h1)" using l1 by simp
  from down_props [OF w1 nl1, of i]
  have w2: "items_wf h2" and s2: "same_items h1 h2" and x2: "fst h2 ! n = fst h1 ! n"
    by (simp_all add: h2_def)
  have l2: "length (fst h2) = Suc n" using s2 l1 by (simp add: same_items_length)
  have il2: "i < length (fst h2)" using i l2 by simp
  from up_props [OF w2 il2]
  have wu: "items_wf (up h2 i)" and su: "same_items h2 (up h2 i)" and xu: "fst (up h2 i) ! n = fst h2 ! n"
    using i by simp_all
  have nlt: "n < length (deadlines h)" using il by simp
  have heap3: "heap_upto (deadlines h3) n"
  proof (cases "i = 0 \<or> deadlines h ! parent i \<le> deadlines h ! n")
    case True
    have "down_inv (deadlines h1) n i"
      unfolding t1 using hp i nlt True by (rule remove_down_inv)
    then have h2h: "heap_upto (deadlines h2) n"
      unfolding h2_def using nl1 by (rule down_heap)
    then have "up_inv (deadlines h2) n i" using i by (rule heap_upto_up_inv)
    then have "heap_upto (deadlines (up h2 i)) n"
      using i l2 by (intro up_heap) simp_all
    with h2h show ?thesis
      by (simp add: h3_def fst_down h2_def [symmetric])
  next
    case False
    then have f: "0 < i" "deadlines h ! n < deadlines h ! parent i" by simp_all
    from remove_up_inv [OF hp i nlt f]
    have ui: "up_inv (deadlines h1) n i"
      and ch: "\<And>c. 0 < c \<Longrightarrow> c < n \<Longrightarrow> parent c = i \<Longrightarrow> deadlines h1 ! i \<le> deadlines h1 ! c"
      by (simp_all add: t1)
    have dl: "down_loop h1 i n = (h1, i)"
      using nl1 ch by (rule down_noop)
    have "heap_upto (deadlines (up h1 i)) n"
      using ui i l1 by (intro up_heap) simp_all
    then show ?thesis
      by (simp add: h3_def fst_down snd_down dl)
  qed
  have "items_wf h3 \<and> same_items h1 h3 \<and> fst h3 ! n = fst h1 ! n"
    using w2 s2 x2 wu xu same_items_trans [OF s2 su]
    by (simp add: h3_def fst_down h2_def [symmetric])
  then show ?thesis
    using heap3 x1 same_items_trans [OF s1] by simp
qed

lemma heap_Remove_spec:
  assumes w: "items_wf h" and hp: "heap_upto (deadlines h) (length (fst h))" and i: "i < length (fst h)"
  shows "fst (heap_Remove h i) = fst h ! i \<and> removed h (fst h ! i) (snd (heap_Remove h i))"
proof -
  define n where "n = length (fst h) - 1"
  have l: "length (fst h) = Suc n" using i by (simp add: n_def)
  have hp': "heap_upto (deadlines h) (Suc n)" using hp l by simp
  show ?thesis
  proof (cases "i = n")
    case True
    have "heap_upto (deadlines h) n" using hp' by (rule heap_upto_mono) simp
    from Pop_removed [OF w same_items_refl l this] True show ?thesis
      by (simp add: heap_Remove_unfold [OF n_def])
  next
    case False
    then have "i < n" using i l by simp
    from fix_after_swap [OF w hp' l this]
    obtain h3 where h3: "heap_Remove h i = Pop h3"
      and p: "items_wf h3" "same_items h h3" "heap_upto (deadlines h3) n" "fst h3 ! n = fst h ! i"
      using False by (simp add: heap_Remove_unfold [OF n_def])
    from Pop_removed [OF p(1) p(2) l p(3)] p(4) show ?thesis
      by (simp add: h3)
  qed
qed

lemma heap_Pop_spec:
  assumes w: "items_wf h" and hp: "heap_upto (deadlines h) (length (fst h))" and i: "0 < length (fst h)"
  shows "fst (heap_Pop h) = fst h ! 0 \<and> removed h (fst h ! 0) (snd (heap_Pop h))"
proof -
  define n where "n = length (fst h) - 1"
  have l: "length (fst h) = Suc n" using i by (simp add: n_def)
  have hp': "heap_upto (deadlines h) (Suc n)" using hp l by simp
  have il: "0 < length (fst h)" "n < length (fst h)" using l by simp_all
  define h1 where "h1 = Swap h 0 n"
  have w1: "items_wf h1" unfolding h1_def using w il by (rule items_wf_Swap)
  have s1: "same_items h h1" unfolding h1_def using w il by (rule same_items_Swap)
  have l1: "length (fst h1) = Suc n" by (simp add: h1_def length_Swap l)
  have t1: "deadlines h1 = (deadlines h)[0 := deadlines h ! n, n := deadlines h ! 0]"
    unfolding h1_def using il by (rule deadlines_Swap)
  have x1: "fst h1 ! n = fst h ! 0"
    unfolding h1_def using il by (cases h) (simp add: fst_Swap)
  define h2 where "h2 = fst (down_loop h1 0 n)"
  have nl1: "n \<le> length (fst h1)" using l1 by simp
  from down_props [OF w1 nl1, of 0]
  have w2: "items_wf h2" and s2: "same_items h1 h2" and x2: "fst h2 ! n = fst h1 ! n"
    by (simp_all add: h2_def)
  have "down_inv (deadlines h1) n 0"
  proof (cases "n = 0")
    case True
    then show ?thesis by (simp add: down_inv_0)
  next
    case False
    then have n0: "0 < n" by simp
    have nlt: "n < length (deadlines h)" using il by simp
    show ?thesis unfolding t1 using hp' n0 nlt by (rule remove_down_inv) simp
  qed
  then have h2h: "heap_upto (deadlines h2) n"
    unfolding h2_def using nl1 by (rule down_heap)
  from Pop_removed [OF w2 same_items_trans [OF s1 s2] l h2h] x1 x2 show ?thesis
    by (simp add: heap_Pop_unfold [OF n_def] h1_def [symmetric] fst_down h2_def [symmetric])
qed

lemma heap_Push_spec:
  assumes w: "items_wf h" and hp: "heap_upto (deadlines h) (length (fst h))"
    and a: "a \<notin> set (fst h)" and it: "snd h a = Some it"
  shows "items_wf (heap_Push h a) \<and>
     heap_upto (deadlines (heap_Push h a)) (length (fst (heap_Push h a))) \<and>
     mset (fst (heap_Push h a)) = add_mset a (mset (fst h)) \<and>
     (\<forall>b. map_option core (snd (heap_Push h a) b) = map_option core (snd h b)) \<and>
     (\<forall>b. b \<notin> set (fst h) \<and> b \<noteq> a \<longrightarrow> snd (heap_Push h a) b = snd h b)"
proof -
  obtain xs \<sigma> where h: "h = (xs, \<sigma>)" by (cases h)
  define n where "n = length xs"
  define h1 where "h1 = Push h a"
  have h1: "h1 = (xs @ [a], set_i \<sigma> a n)" by (simp add: h1_def Push_def h n_def)
  have ix: "\<And>k. k < n \<Longrightarrow> \<exists>x. \<sigma> (xs ! k) = Some x \<and> item_i x = k"
    using w h by (simp add: items_wf_def n_def)
  have na: "\<And>k. k < n \<Longrightarrow> xs ! k \<noteq> a"
    using a h by (auto simp: n_def)
  have w1: "items_wf h1"
    unfolding items_wf_def h1
  proof (intro conjI allI impI)
    show "distinct (fst (xs @ [a], set_i \<sigma> a n))"
      using w a h by (simp add: items_wf_def)
  next
    fix k assume "k < length (fst (xs @ [a], set_i \<sigma> a n))"
    then have "k < n \<or> k = n" by (auto simp: n_def)
    then show "\<exists>x. snd (xs @ [a], set_i \<sigma> a n) (fst (xs @ [a], set_i \<sigma> a n) ! k) = Some x \<and>
        item_i x = k"
    proof
      assume k: "k < n"
      then show ?thesis using ix [OF k] na [OF k]
        by (simp add: nth_append n_def set_i_apply)
    next
      assume "k = n"
      then show ?thesis by (simp add: nth_append n_def set_i_apply)
    qed
  qed
  have t1: "deadlines h1 = deadlines h @ [item_t it]"
    using it h by (simp add: h1 deadlines_def deref_set_i_t) (simp add: deref_def)
  have c1: "map_option core (snd h1 b) = map_option core (snd h b)" for b
    using it h by (simp add: h1 set_i_apply deref_def core_def)
  have o1: "snd h1 b = snd h b" if "b \<noteq> a" for b
    using that h by (simp add: h1 set_i_apply)
  have l1: "length (fst h1) = Suc n" by (simp add: h1 n_def)
  have "up_inv (deadlines h1) (Suc n) n"
    unfolding t1 using hp h by (intro push_up_inv) (simp_all add: n_def)
  then have hu: "heap_upto (deadlines (up h1 n)) (Suc n)"
    using l1 by (intro up_heap) simp_all
  from up_props [OF w1, of n] l1
  have wu: "items_wf (up h1 n)" and su: "same_items h1 (up h1 n)" by simp_all
  have e: "heap_Push h a = up h1 n"
    by (simp add: heap_Push_def Let_def h1_def [symmetric] Len_def l1)
  have lu: "length (fst (up h1 n)) = Suc n"
    using su l1 by (simp add: same_items_length)
  have m: "mset (fst (up h1 n)) = add_mset a (mset (fst h))"
    using su by (simp add: same_items_def h1 h)
  have c: "map_option core (snd (up h1 n) b) = map_option core (snd h b)" for b
    using su c1 [of b] by (simp add: same_items_def)
  have o: "snd (up h1 n) b = snd h b" if "b \<notin> set (fst h)" "b \<noteq> a" for b
  proof -
    from that have "b \<notin> set (fst h1)" by (simp add: h1 h)
    then have "snd (up h1 n) b = snd h1 b" using su by (simp add: same_items_def)
    then show ?thesis using that o1 by simp
  qed
  show ?thesis
    unfolding e using wu hu lu m c o by simp
qed

section \<open>The invariant of the queue\<close>

definition queue_inv :: "('k, 'v) Queue \<Rightarrow> bool" where
  "queue_inv s \<longleftrightarrow>
     items_wf (q_items s, q_store s) \<and>
     heap_upto (deadlines (q_items s, q_store s)) (length (q_items s)) \<and>
     (\<forall>a \<in> set (q_items s). a < q_next s) \<and>
     (\<forall>k a. q_m s k = Some a \<longleftrightarrow> a \<in> set (q_items s) \<and> item_key (deref (q_store s) a) = k)"

lemma queue_inv_New: "queue_inv New"
  by (simp add: queue_inv_def New_def items_wf_def heap_upto_def)

lemma Queue_Add_absent:
  assumes inv: "queue_inv s" and None: "q_m s k = None"
  shows "fst (Queue_Add k v t s) = Inr ()"
    and "queue_inv (snd (Queue_Add k v t s))"
    and "q_m (snd (Queue_Add k v t s)) = (q_m s)(k \<mapsto> q_next s)"
    and "mset (q_items (snd (Queue_Add k v t s))) = add_mset (q_next s) (mset (q_items s))"
    and "q_next s \<notin> set (q_items s)"
    and "\<And>b. b \<in> set (q_items s) \<Longrightarrow>
           core (deref (q_store (snd (Queue_Add k v t s))) b) = core (deref (q_store s) b)"
    and "core (deref (q_store (snd (Queue_Add k v t s))) (q_next s)) = (k, v, t)"
proof -
  define s' where "s' = snd (Queue_Add k v t s)"
  define a where "a = q_next s"
  define it :: "('a, 'b) queueItem" where
    "it = \<lparr>item_i = 0, item_key = k, item_value = v, item_t = t\<rparr>"
  define \<sigma>1 where "\<sigma>1 = (q_store s)(a \<mapsto> it)"
  define h' where "h' = heap_Push (q_items s, \<sigma>1) a"
  have e: "s' = \<lparr>q_items = fst h', q_m = (q_m s)(k \<mapsto> a), q_store = snd h', q_next = Suc a\<rparr>"
    using None by (simp add: s'_def Queue_Add_def Let_def h'_def \<sigma>1_def it_def a_def)
  from inv have w: "items_wf (q_items s, q_store s)"
    and hp: "heap_upto (deadlines (q_items s, q_store s)) (length (q_items s))"
    and nx: "\<And>b. b \<in> set (q_items s) \<Longrightarrow> b < a"
    and mp: "\<And>k' b. q_m s k' = Some b \<longleftrightarrow> b \<in> set (q_items s) \<and> item_key (deref (q_store s) b) = k'"
    by (simp_all add: queue_inv_def a_def)
  have fresh: "a \<notin> set (q_items s)" using nx by blast
  have same: "\<And>b. b \<in> set (q_items s) \<Longrightarrow> \<sigma>1 b = q_store s b"
    using fresh by (auto simp: \<sigma>1_def)
  have w1: "items_wf (q_items s, \<sigma>1)"
    using w same unfolding items_wf_def by simp
  have "deadlines (q_items s, \<sigma>1) = deadlines (q_items s, q_store s)"
    using same by (intro deadlines_cong) simp
  then have hp1: "heap_upto (deadlines (q_items s, \<sigma>1)) (length (fst (q_items s, \<sigma>1)))"
    using hp by simp
  have "snd (q_items s, \<sigma>1) a = Some it" by (simp add: \<sigma>1_def)
  from heap_Push_spec [OF w1 hp1 _ this] fresh
  have wu: "items_wf h'" and hu: "heap_upto (deadlines h') (length (fst h'))"
    and m: "mset (fst h') = add_mset a (mset (q_items s))"
    and c: "\<And>b. map_option core (snd h' b) = map_option core (\<sigma>1 b)"
    by (simp_all add: h'_def)
  have st: "set (fst h') = insert a (set (q_items s))"
    using m by (metis set_mset_add_mset_insert set_mset_mset)
  have ca: "core (deref (snd h') a) = (k, v, t)"
    using core_deref [of "snd h'" a \<sigma>1, OF c] by (simp add: \<sigma>1_def deref_def it_def core_def)
  have cb: "core (deref (snd h') b) = core (deref (q_store s) b)" if "b \<in> set (q_items s)" for b
    using core_deref [of "snd h'" b \<sigma>1, OF c] same [OF that] by (simp add: deref_def)
  have ka: "item_key (deref (snd h') a) = k"
    using ca by (simp add: core_def)
  have kb: "item_key (deref (snd h') b) = item_key (deref (q_store s) b)" if "b \<in> set (q_items s)" for b
    using cb [OF that] by (simp add: core_eq)
  have mp': "((q_m s)(k \<mapsto> a)) k' = Some b \<longleftrightarrow> b \<in> set (fst h') \<and> item_key (deref (snd h') b) = k'" for k' b
  proof (cases "k' = k")
    case True
    have "\<not> (b \<in> set (q_items s) \<and> item_key (deref (q_store s) b) = k)"
      using mp [of k b] None by simp
    then show ?thesis using True ka kb [of b] by (auto simp: st)
  next
    case False
    then show ?thesis using mp [of k' b] ka kb [of b] by (auto simp: st)
  qed
  have "queue_inv s'"
    unfolding queue_inv_def e using wu hu mp' nx by (auto simp: st less_Suc_eq)
  then show "queue_inv (snd (Queue_Add k v t s))" by (simp add: s'_def)
  show "fst (Queue_Add k v t s) = Inr ()"
    using None by (simp add: Queue_Add_def Let_def)
  have "q_m s' = (q_m s)(k \<mapsto> q_next s)" by (simp add: e a_def)
  then show "q_m (snd (Queue_Add k v t s)) = (q_m s)(k \<mapsto> q_next s)" by (simp add: s'_def)
  have "mset (q_items s') = add_mset (q_next s) (mset (q_items s))"
    using m by (simp add: e a_def)
  then show "mset (q_items (snd (Queue_Add k v t s))) = add_mset (q_next s) (mset (q_items s))"
    by (simp add: s'_def)
  show "q_next s \<notin> set (q_items s)" using fresh by (simp add: a_def)
  have "core (deref (q_store s') b) = core (deref (q_store s) b)" if "b \<in> set (q_items s)" for b
    using cb [OF that] by (simp add: e)
  then show "\<And>b. b \<in> set (q_items s) \<Longrightarrow>
           core (deref (q_store (snd (Queue_Add k v t s))) b) = core (deref (q_store s) b)"
    by (simp add: s'_def)
  have "core (deref (q_store s') (q_next s)) = (k, v, t)"
    using ca by (simp add: e a_def)
  then show "core (deref (q_store (snd (Queue_Add k v t s))) (q_next s)) = (k, v, t)"
    by (simp add: s'_def)
qed

lemma queue_inv_Add:
  assumes inv: "queue_inv s"
  shows "queue_inv (snd (Queue_Add k v t s))"
proof (cases "q_m s k")
  case (Some a)
  then show ?thesis using inv by (simp add: Queue_Add_def)
next
  case None
  with inv show ?thesis by (rule Queue_Add_absent(2))
qed

lemma delete_inv:
  assumes inv: "queue_inv s" and a: "a \<in> set (q_items s)"
    and r: "removed (q_items s, q_store s) a h'"
  shows "queue_inv (s\<lparr>q_items := fst h', q_store := snd h',
     q_m := (q_m s)(item_key (deref (q_store s) a) := None)\<rparr>)"
proof -
  define k where "k = item_key (deref (q_store s) a)"
  from inv have w: "items_wf (q_items s, q_store s)"
    and nx: "\<And>b. b \<in> set (q_items s) \<Longrightarrow> b < q_next s"
    and mp: "\<And>k' b. q_m s k' = Some b \<longleftrightarrow> b \<in> set (q_items s) \<and> item_key (deref (q_store s) b) = k'"
    by (simp_all add: queue_inv_def)
  from r have wu: "items_wf h'" and hu: "heap_upto (deadlines h') (length (fst h'))"
    and m: "mset (fst h') = mset (q_items s) - {#a#}"
    and c: "\<And>b. map_option core (snd h' b) = map_option core (q_store s b)"
    by (simp_all add: removed_def)
  have d: "distinct (q_items s)" using w by (simp add: items_wf_def)
  have st: "set (fst h') = set (q_items s) - {a}"
  proof -
    have "mset (fst h') = mset (removeAll a (q_items s))"
      using m d by (simp add: distinct_remove1_removeAll [symmetric])
    then have "set (fst h') = set (removeAll a (q_items s))" by (rule mset_eq_setD)
    then show ?thesis by simp
  qed
  have kb: "item_key (deref (snd h') b) = item_key (deref (q_store s) b)" for b
    using core_deref [of "snd h'" b "q_store s", OF c] by (simp add: core_eq)
  have ma: "q_m s k = Some a" using mp [of k a] a by (simp add: k_def)
  have mp': "((q_m s)(k := None)) k' = Some b \<longleftrightarrow> b \<in> set (fst h') \<and> item_key (deref (snd h') b) = k'" for k' b
  proof (cases "k' = k")
    case True
    then show ?thesis using mp [of k b] ma by (auto simp: st kb)
  next
    case False
    then show ?thesis using mp [of k' b] by (auto simp: st kb k_def)
  qed
  show ?thesis
    unfolding queue_inv_def k_def [symmetric] using wu hu mp' nx by (auto simp: st)
qed

lemma index_of_item:
  assumes inv: "queue_inv s" and m: "q_m s k = Some a"
  shows "item_i (deref (q_store s) a) < length (q_items s) \<and>
     q_items s ! item_i (deref (q_store s) a) = a \<and> a \<in> set (q_items s) \<and>
     item_key (deref (q_store s) a) = k"
proof -
  from inv m have a: "a \<in> set (q_items s)" and k: "item_key (deref (q_store s) a) = k"
    by (simp_all add: queue_inv_def)
  then obtain j where j: "j < length (q_items s)" "q_items s ! j = a"
    by (auto simp: in_set_conv_nth)
  from inv j have "item_i (deref (q_store s) a) = j"
    by (auto simp: queue_inv_def items_wf_def deref_def)
  with j a k show ?thesis by simp
qed

lemma Queue_Remove_present:
  assumes inv: "queue_inv s" and m: "q_m s k = Some a"
  shows "\<exists>h'. Queue_Remove k s =
       (Inr (), s\<lparr>q_items := fst h', q_store := snd h', q_m := (q_m s)(k := None)\<rparr>) \<and>
     removed (q_items s, q_store s) a h'"
proof -
  note ix = index_of_item [OF inv m]
  define i where "i = item_i (deref (q_store s) a)"
  from inv have w: "items_wf (q_items s, q_store s)"
    and hp: "heap_upto (deadlines (q_items s, q_store s)) (length (fst (q_items s, q_store s)))"
    by (simp_all add: queue_inv_def)
  have il: "i < length (fst (q_items s, q_store s))" using ix by (simp add: i_def)
  from heap_Remove_spec [OF w hp il] ix
  have "removed (q_items s, q_store s) a (snd (heap_Remove (q_items s, q_store s) i))"
    by (simp add: i_def)
  moreover have "Queue_Remove k s =
     (Inr (), s\<lparr>q_items := fst (snd (heap_Remove (q_items s, q_store s) i)),
        q_store := snd (snd (heap_Remove (q_items s, q_store s) i)), q_m := (q_m s)(k := None)\<rparr>)"
    using m ix by (simp add: Queue_Remove_def Let_def i_def)
  ultimately show ?thesis by blast
qed

lemma queue_inv_Remove:
  assumes inv: "queue_inv s"
  shows "queue_inv (snd (Queue_Remove k s))"
proof (cases "q_m s k")
  case None
  then show ?thesis using inv by (simp add: Queue_Remove_def)
next
  case (Some a)
  from Queue_Remove_present [OF inv Some] obtain h' where
    e: "Queue_Remove k s =
       (Inr (), s\<lparr>q_items := fst h', q_store := snd h', q_m := (q_m s)(k := None)\<rparr>)"
    and r: "removed (q_items s, q_store s) a h'" by blast
  note ix = index_of_item [OF inv Some]
  from delete_inv [OF inv _ r] ix show ?thesis
    by (simp add: e)
qed

definition due :: "Time \<Rightarrow> ('k, 'v) Queue \<Rightarrow> bool" where
  "due now s \<longleftrightarrow>
     0 < length (q_items s) \<and> \<not> Time_After (item_t (deref (q_store s) (q_items s ! 0))) now"

definition pop_step :: "('k, 'v) Queue \<Rightarrow> ('k, 'v) Queue" where
  "pop_step s =
     (let p = heap_Pop (q_items s, q_store s);
          item = fst p;
          s1 = s\<lparr>q_items := fst (snd p), q_store := snd (snd p)\<rparr>
      in s1\<lparr>q_m := (q_m s1)(item_key (deref (q_store s1) item) := None)\<rparr>)"

lemma Ready_loop_stop: "\<not> due now s \<Longrightarrow> Ready_loop now s ready = (ready, s)"
  by (subst Ready_loop.simps) (auto simp: due_def)

lemma Ready_loop_rec:
  "due now s \<Longrightarrow>
     Ready_loop now s ready =
       Ready_loop now (pop_step s)
         (ready @ [item_value (deref (q_store (pop_step s))
            (fst (heap_Pop (q_items s, q_store s))))])"
  by (subst Ready_loop.simps) (simp add: due_def pop_step_def Let_def)

lemma Ready_loop_induct [case_names step]:
  assumes "\<And>now s ready.
     (due now s \<Longrightarrow>
        P now (pop_step s)
          (ready @ [item_value (deref (q_store (pop_step s))
             (fst (heap_Pop (q_items s, q_store s))))])) \<Longrightarrow> P now s ready"
  shows "P now s ready"
proof (induction now s ready rule: Ready_loop.induct)
  case (1 now s ready)
  show ?case
  proof (rule assms)
    assume d: "due now s"
    then show "P now (pop_step s)
          (ready @ [item_value (deref (q_store (pop_step s))
             (fst (heap_Pop (q_items s, q_store s))))])"
      using "1.IH" [OF _ refl refl refl refl] by (simp add: due_def pop_step_def Let_def)
  qed
qed

lemma root_min:
  assumes "queue_inv s" "a \<in> set (q_items s)"
  shows "item_t (deref (q_store s) (q_items s ! 0)) \<le> item_t (deref (q_store s) a)"
proof -
  from assms(2) obtain j where j: "j < length (q_items s)" "q_items s ! j = a"
    by (auto simp: in_set_conv_nth)
  from assms(1) have "heap_upto (deadlines (q_items s, q_store s)) (length (q_items s))"
    by (simp add: queue_inv_def)
  from heap_upto_root [OF this j(1)] j have
    "map (\<lambda>a. item_t (deref (q_store s) a)) (q_items s) ! 0 \<le> item_t (deref (q_store s) a)"
    by (simp add: deadlines_def)
  moreover have "0 < length (q_items s)" using j(1) by (cases "q_items s") auto
  ultimately show ?thesis by simp
qed

lemma pop_step_props:
  assumes inv: "queue_inv s" and ne: "0 < length (q_items s)"
  defines "r \<equiv> q_items s ! 0"
  shows "fst (heap_Pop (q_items s, q_store s)) = r"
    and "queue_inv (pop_step s)"
    and "mset (q_items s) = add_mset r (mset (q_items (pop_step s)))"
    and "\<And>a. map_option core (q_store (pop_step s) a) = map_option core (q_store s a)"
    and "q_m (pop_step s) = (q_m s)(item_key (deref (q_store s) r) := None)"
    and "q_next (pop_step s) = q_next s"
proof -
  from inv have w: "items_wf (q_items s, q_store s)"
    and hp: "heap_upto (deadlines (q_items s, q_store s)) (length (fst (q_items s, q_store s)))"
    by (simp_all add: queue_inv_def)
  define p where "p = heap_Pop (q_items s, q_store s)"
  have ne': "0 < length (fst (q_items s, q_store s))" using ne by simp
  from heap_Pop_spec [OF w hp ne']
  have f: "fst p = r" and rm: "removed (q_items s, q_store s) r (snd p)"
    by (simp_all add: p_def r_def)
  have rin: "r \<in> set (q_items s)" using ne by (simp add: r_def)
  from rm have c: "\<And>a. map_option core (snd (snd p) a) = map_option core (q_store s a)"
    and m: "mset (fst (snd p)) = mset (q_items s) - {#r#}"
    by (simp_all add: removed_def)
  have k: "item_key (deref (snd (snd p)) r) = item_key (deref (q_store s) r)"
    using core_deref [of "snd (snd p)" r "q_store s", OF c] by (simp add: core_eq)
  have e: "pop_step s = s\<lparr>q_items := fst (snd p), q_store := snd (snd p),
      q_m := (q_m s)(item_key (deref (q_store s) r) := None)\<rparr>"
    by (simp add: pop_step_def Let_def p_def [symmetric] f k)
  show "fst (heap_Pop (q_items s, q_store s)) = r" using f by (simp add: p_def)
  show "queue_inv (pop_step s)" unfolding e using inv rin rm by (rule delete_inv)
  show "mset (q_items s) = add_mset r (mset (q_items (pop_step s)))"
    using m rin by (simp add: e)
  show "\<And>a. map_option core (q_store (pop_step s) a) = map_option core (q_store s a)"
    using c by (simp add: e)
  show "q_m (pop_step s) = (q_m s)(item_key (deref (q_store s) r) := None)"
    by (simp add: e)
  show "q_next (pop_step s) = q_next s" by (simp add: e)
qed

lemma Ready_loop_spec:
  "queue_inv s \<Longrightarrow> Ready_loop now s ready = (vs, s') \<Longrightarrow>
     queue_inv s' \<and> q_next s' = q_next s \<and>
     (\<forall>a. map_option core (q_store s' a) = map_option core (q_store s a)) \<and>
     (\<exists>as. vs = ready @ map (\<lambda>a. item_value (deref (q_store s) a)) as \<and>
        sorted (map (\<lambda>a. item_t (deref (q_store s) a)) as) \<and>
        mset as = filter_mset (\<lambda>a. item_t (deref (q_store s) a) \<le> now) (mset (q_items s)) \<and>
        mset (q_items s') =
          filter_mset (\<lambda>a. now < item_t (deref (q_store s) a)) (mset (q_items s)) \<and>
        q_m s' = (\<lambda>k. if k \<in> (\<lambda>a. item_key (deref (q_store s) a)) ` set as then None
                       else q_m s k))"
proof (induction now s ready arbitrary: vs s' rule: Ready_loop_induct)
  case (step now s ready)
  show ?case
  proof (cases "due now s")
    case False
    then have e: "vs = ready" "s' = s"
      using step.prems(2) by (simp_all add: Ready_loop_stop)
    have late: "now < item_t (deref (q_store s) a)" if a: "a \<in> set (q_items s)" for a
    proof -
      from a have "0 < length (q_items s)" by (cases "q_items s") auto
      with False have "now < item_t (deref (q_store s) (q_items s ! 0))"
        by (simp add: due_def Time_After_def)
      with root_min [OF step.prems(1) a] show ?thesis by simp
    qed
    have f1: "filter_mset (\<lambda>a. item_t (deref (q_store s) a) \<le> now) (mset (q_items s)) = {#}"
      using late by (auto simp: not_le)
    have f2: "filter_mset (\<lambda>a. now < item_t (deref (q_store s) a)) (mset (q_items s)) =
        mset (q_items s)"
      using late by (simp add: filter_mset_eq_conv)
    show ?thesis
      using step.prems(1) f1 f2 by (auto simp: e intro!: exI [of _ "[]"])
  next
    case True
    let ?r = "q_items s ! 0"
    let ?s2 = "pop_step s"
    from True have ne: "0 < length (q_items s)" by (simp add: due_def)
    note pp = pop_step_props [OF step.prems(1) ne]
    from True have tr: "item_t (deref (q_store s) ?r) \<le> now"
      by (simp add: due_def Time_After_def)
    have rin: "?r \<in> set (q_items s)" using ne by simp
    have cd: "core (deref (q_store ?s2) a) = core (deref (q_store s) a)" for a
      by (rule core_deref [of "q_store ?s2" a "q_store s", OF pp(4)])
    have T: "\<And>a. item_t (deref (q_store ?s2) a) = item_t (deref (q_store s) a)"
      and V: "\<And>a. item_value (deref (q_store ?s2) a) = item_value (deref (q_store s) a)"
      and K: "\<And>a. item_key (deref (q_store ?s2) a) = item_key (deref (q_store s) a)"
      using cd by (simp_all add: core_eq)
    have rec: "Ready_loop now ?s2
        (ready @ [item_value (deref (q_store ?s2) (fst (heap_Pop (q_items s, q_store s))))]) =
          (vs, s')"
      using step.prems(2) by (simp only: Ready_loop_rec [OF True])
    note ih = step.IH [OF True pp(2) rec]
    from ih have inv': "queue_inv s'" and nx: "q_next s' = q_next ?s2"
      and c': "\<And>a. map_option core (q_store s' a) = map_option core (q_store ?s2 a)"
      by blast+
    from ih obtain as where as0:
      "vs = (ready @ [item_value (deref (q_store ?s2) (fst (heap_Pop (q_items s, q_store s))))]) @
            map (\<lambda>a. item_value (deref (q_store ?s2) a)) as"
      "sorted (map (\<lambda>a. item_t (deref (q_store ?s2) a)) as)"
      "mset as = filter_mset (\<lambda>a. item_t (deref (q_store ?s2) a) \<le> now) (mset (q_items ?s2))"
      "mset (q_items s') =
          filter_mset (\<lambda>a. now < item_t (deref (q_store ?s2) a)) (mset (q_items ?s2))"
      "q_m s' = (\<lambda>k. if k \<in> (\<lambda>a. item_key (deref (q_store ?s2) a)) ` set as then None
                       else q_m ?s2 k)"
      by blast
    have as:
      "vs = (ready @ [item_value (deref (q_store s) ?r)]) @
            map (\<lambda>a. item_value (deref (q_store s) a)) as"
      "sorted (map (\<lambda>a. item_t (deref (q_store s) a)) as)"
      "mset as = filter_mset (\<lambda>a. item_t (deref (q_store s) a) \<le> now) (mset (q_items ?s2))"
      "mset (q_items s') =
          filter_mset (\<lambda>a. now < item_t (deref (q_store s) a)) (mset (q_items ?s2))"
      "q_m s' = (\<lambda>k. if k \<in> (\<lambda>a. item_key (deref (q_store s) a)) ` set as then None
                       else q_m ?s2 k)"
      using as0 by (simp_all only: T V K pp(1))
    have sub: "set as \<subseteq> set (q_items s)"
    proof
      fix a assume "a \<in> set as"
      then have "a \<in># mset as" by simp
      then have "a \<in># mset (q_items ?s2)" unfolding as(3) by simp
      then have "a \<in># mset (q_items s)" unfolding pp(3) by simp
      then show "a \<in> set (q_items s)" by simp
    qed
    have le: "item_t (deref (q_store s) ?r) \<le> item_t (deref (q_store s) a)" if "a \<in> set as" for a
      using root_min [OF step.prems(1), of a] that sub by auto
    have 1: "vs = ready @ map (\<lambda>a. item_value (deref (q_store s) a)) (?r # as)"
      using as(1) by simp
    have 2: "sorted (map (\<lambda>a. item_t (deref (q_store s) a)) (?r # as))"
      using as(2) le by simp
    have 3: "mset (?r # as) =
        filter_mset (\<lambda>a. item_t (deref (q_store s) a) \<le> now) (mset (q_items s))"
      using as(3) tr by (simp add: pp(3))
    have 4: "mset (q_items s') =
        filter_mset (\<lambda>a. now < item_t (deref (q_store s) a)) (mset (q_items s))"
      using as(4) tr by (simp add: pp(3))
    have 5: "q_m s' = (\<lambda>k. if k \<in> (\<lambda>a. item_key (deref (q_store s) a)) ` set (?r # as) then None
                       else q_m s k)"
      unfolding as(5) pp(5) by (rule ext) simp
    have 6: "\<forall>a. map_option core (q_store s' a) = map_option core (q_store s a)"
      using c' pp(4) by simp
    from 1 2 3 4 5 have "\<exists>as. vs = ready @ map (\<lambda>a. item_value (deref (q_store s) a)) as \<and>
        sorted (map (\<lambda>a. item_t (deref (q_store s) a)) as) \<and>
        mset as = filter_mset (\<lambda>a. item_t (deref (q_store s) a) \<le> now) (mset (q_items s)) \<and>
        mset (q_items s') =
          filter_mset (\<lambda>a. now < item_t (deref (q_store s) a)) (mset (q_items s)) \<and>
        q_m s' = (\<lambda>k. if k \<in> (\<lambda>a. item_key (deref (q_store s) a)) ` set as then None
                       else q_m s k)"
      by blast
    with inv' nx pp(6) 6 show ?thesis by simp
  qed
qed

lemma queue_inv_Ready: "queue_inv s \<Longrightarrow> queue_inv (snd (Ready now s))"
  using Ready_loop_spec [of s now "[]" "fst (Ready now s)" "snd (Ready now s)"]
  by (simp add: Ready_def)

lemma queue_inv_step: "queue_inv s \<Longrightarrow> queue_inv (step c s)"
  by (cases c) (simp_all add: queue_inv_Add queue_inv_Remove queue_inv_Ready)

lemma queue_inv_run: "queue_inv s \<Longrightarrow> queue_inv (run cs s)"
  by (induction cs arbitrary: s) (simp_all add: queue_inv_step)

lemma queue_inv_reachable: "queue_inv (run cs New)"
  by (rule queue_inv_run [OF queue_inv_New])

text \<open>Where the difference of two times fits in a duration, \<^verbatim>\<open>Sub\<close> is exact.\<close>

lemma sint_word_of_int_64:
  "- (2 ^ 63) \<le> x \<Longrightarrow> x < 2 ^ 63 \<Longrightarrow> sint (word_of_int x :: 64 word) = x"
  by (simp only: sint_sbintrunc' signed_take_bit_int_eq_self) (simp add: signed_take_bit_int_eq_self)

lemma Time_Sub_exact:
  assumes "- (2 ^ 63) \<le> t - u" "t - u < 2 ^ 63"
  shows "sint (Time_Sub t u) = t - u"
proof -
  have "Time_Sub t u = word_of_int (t - u)"
    using assms unfolding Time_Sub_def by (simp only: if_True simp_thms)
  then show ?thesis using assms by (simp only: sint_word_of_int_64)
qed

section \<open>A queue to evaluate on\<close>

text \<open>
  The four operations of the repository's test \<^verbatim>\<open>TestNext\<close>, added at time zero:
  \<open>k0\<close> due at 3000, \<open>k1\<close> at 1500, \<open>k2\<close> at 2000 and \<open>k3\<close> at 2500; and the
  same queue after \<open>k3\<close> was removed and the items due at 1500 were taken.
\<close>

definition example_calls :: "(string, nat) call list" where
  "example_calls =
     [CallAdd ''k0'' 0 3000, CallAdd ''k1'' 1 1500, CallAdd ''k2'' 2 2000, CallAdd ''k3'' 3 2500]"

definition example_queue :: "(string, nat) Queue" where
  "example_queue = run example_calls New"

definition example_later :: "(string, nat) Queue" where
  "example_later = run (example_calls @ [CallRemove ''k3'', CallReady 1500]) New"

lemma example_items: "q_items example_queue = [1, 3, 2, 0]"
  by code_simp

lemma example_m:
  "q_m example_queue ''k0'' = Some 0" "q_m example_queue ''k1'' = Some 1"
  "q_m example_queue ''k2'' = Some 2" "q_m example_queue ''k3'' = Some 3"
  "q_m example_queue ''zz'' = None" "q_m example_queue ''k9'' = None"
  by code_simp+

lemma example_store:
  "deref (q_store example_queue) 0 = \<lparr>item_i = 3, item_key = ''k0'', item_value = 0, item_t = 3000\<rparr>"
  "deref (q_store example_queue) 1 = \<lparr>item_i = 0, item_key = ''k1'', item_value = 1, item_t = 1500\<rparr>"
  "deref (q_store example_queue) 2 = \<lparr>item_i = 2, item_key = ''k2'', item_value = 2, item_t = 2000\<rparr>"
  "deref (q_store example_queue) 3 = \<lparr>item_i = 1, item_key = ''k3'', item_value = 3, item_t = 2500\<rparr>"
  by code_simp+

lemma example_Ready:
  "fst (Ready 2000 example_queue) = [1, 2]"
  "q_items (snd (Ready 2000 example_queue)) = [3, 0]"
  by code_simp+

lemma example_Remove:
  "fst (Queue_Remove ''k3'' example_queue) = Inr ()"
  "q_items (snd (Queue_Remove ''k3'' example_queue)) = [1, 0, 2]"
  by code_simp+

lemma example_Add:
  "q_items (snd (Queue_Add ''k9'' 9 1000 example_queue)) = [4, 1, 2, 0, 3]"
  by code_simp

lemma example_later_items: "q_items example_later = [2, 0]"
  by code_simp

lemma example_Next:
  "Next \<lparr>Now = 1000, After = (\<lambda>d. d)\<rparr> example_queue = Some 500"
  by code_simp

lemma example_Schedule_Add:
  "fst (Schedule_Add (\<lambda>e. ''key'') Delay \<lparr>Now = 0, After = (\<lambda>d. d)\<rparr> 0 NewSchedule) = Inr ()"
  "map (\<lambda>a. item_t (deref (q_store (sched_q (snd
      (Schedule_Add (\<lambda>e. ''key'') Delay \<lparr>Now = 0, After = (\<lambda>d. d)\<rparr> 0 NewSchedule)))) a))
     (q_items (sched_q (snd
      (Schedule_Add (\<lambda>e. ''key'') Delay \<lparr>Now = 0, After = (\<lambda>d. d)\<rparr> 0 NewSchedule)))) = [0]"
  by code_simp+

section \<open>Claims about the queue and the schedule\<close>

text \<open>
  C2 (the code at the input of \<^verbatim>\<open>TestExponentialBackoff\<close>). Adding a fresh
  exponential-backoff operation under the key \<open>key\<close> to a new schedule, with the clock
  at zero, enters the operation with the deadline \<open>Now + delay = 0\<close>; what the call
  returns is the unit value, so no deadline reaches the caller.
\<close>

theorem Schedule_Add_returns_no_deadline:
  "fst (Schedule_Add (\<lambda>e. ''key'') Delay \<lparr>Now = 0, After = (\<lambda>d. d)\<rparr> 0 NewSchedule) = Inr () \<and>
   map (\<lambda>a. item_t (deref (q_store (sched_q (snd
      (Schedule_Add (\<lambda>e. ''key'') Delay \<lparr>Now = 0, After = (\<lambda>d. d)\<rparr> 0 NewSchedule)))) a))
     (q_items (sched_q (snd
      (Schedule_Add (\<lambda>e. ''key'') Delay \<lparr>Now = 0, After = (\<lambda>d. d)\<rparr> 0 NewSchedule)))) = [0]"
  using example_Schedule_Add by blast

text \<open>
  C3. In every state \<open>s\<close> that calls reach from a new queue, \<^verbatim>\<open>Ready(now)\<close> returns
  the values of a list \<open>as\<close> of items that is in non-decreasing order of deadline and
  holds exactly the items of the heap whose deadline is at most \<open>now\<close>. The heap
  afterwards holds exactly the items whose deadline is after \<open>now\<close>, each still in the
  index under its key and with its key, value and deadline unchanged, the keys of the
  returned items are gone from the index, and the index has no other key.
\<close>

theorem Ready_returns_due_in_order:
  assumes "s = run cs New" and "Ready now s = (vs, s')"
  shows "\<exists>as. vs = map (\<lambda>a. item_value (deref (q_store s) a)) as \<and>
     sorted (map (\<lambda>a. item_t (deref (q_store s) a)) as) \<and>
     mset as = filter_mset (\<lambda>a. item_t (deref (q_store s) a) \<le> now) (mset (q_items s)) \<and>
     mset (q_items s') =
       filter_mset (\<lambda>a. now < item_t (deref (q_store s) a)) (mset (q_items s)) \<and>
     (\<forall>a \<in> set as. q_m s' (item_key (deref (q_store s) a)) = None) \<and>
     (\<forall>a \<in> set (q_items s').
        q_m s' (item_key (deref (q_store s) a)) = Some a \<and>
        item_key (deref (q_store s') a) = item_key (deref (q_store s) a) \<and>
        item_value (deref (q_store s') a) = item_value (deref (q_store s) a) \<and>
        item_t (deref (q_store s') a) = item_t (deref (q_store s) a)) \<and>
     dom (q_m s') = (\<lambda>a. item_key (deref (q_store s) a)) ` set (q_items s')"
proof -
  have inv: "queue_inv s" unfolding assms(1) by (rule queue_inv_reachable)
  from assms(2) have rl: "Ready_loop now s [] = (vs, s')" by (simp add: Ready_def)
  from Ready_loop_spec [OF inv rl] obtain as where
    inv': "queue_inv s'"
    and c: "\<And>a. map_option core (q_store s' a) = map_option core (q_store s a)"
    and as: "vs = map (\<lambda>a. item_value (deref (q_store s) a)) as"
      "sorted (map (\<lambda>a. item_t (deref (q_store s) a)) as)"
      "mset as = filter_mset (\<lambda>a. item_t (deref (q_store s) a) \<le> now) (mset (q_items s))"
      "mset (q_items s') =
         filter_mset (\<lambda>a. now < item_t (deref (q_store s) a)) (mset (q_items s))"
      "q_m s' = (\<lambda>k. if k \<in> (\<lambda>a. item_key (deref (q_store s) a)) ` set as then None
                       else q_m s k)"
    by auto
  have cd: "core (deref (q_store s') a) = core (deref (q_store s) a)" for a
    by (rule core_deref [of "q_store s'" a "q_store s", OF c])
  from inv' have mp: "\<And>k a. q_m s' k = Some a \<longleftrightarrow>
      a \<in> set (q_items s') \<and> item_key (deref (q_store s') a) = k"
    by (simp add: queue_inv_def)
  have 5: "\<forall>a \<in> set as. q_m s' (item_key (deref (q_store s) a)) = None"
    by (simp add: as(5))
  have 6: "\<forall>a \<in> set (q_items s').
        q_m s' (item_key (deref (q_store s) a)) = Some a \<and>
        item_key (deref (q_store s') a) = item_key (deref (q_store s) a) \<and>
        item_value (deref (q_store s') a) = item_value (deref (q_store s) a) \<and>
        item_t (deref (q_store s') a) = item_t (deref (q_store s) a)"
  proof
    fix a assume a: "a \<in> set (q_items s')"
    have "q_m s' (item_key (deref (q_store s') a)) = Some a" using mp a by simp
    then show "q_m s' (item_key (deref (q_store s) a)) = Some a \<and>
        item_key (deref (q_store s') a) = item_key (deref (q_store s) a) \<and>
        item_value (deref (q_store s') a) = item_value (deref (q_store s) a) \<and>
        item_t (deref (q_store s') a) = item_t (deref (q_store s) a)"
      using cd [of a] by (simp add: core_eq)
  qed
  have 7: "dom (q_m s') = (\<lambda>a. item_key (deref (q_store s) a)) ` set (q_items s')"
  proof -
    have "dom (q_m s') = (\<lambda>a. item_key (deref (q_store s') a)) ` set (q_items s')"
      using mp by (auto simp: dom_def image_iff)
    also have "\<dots> = (\<lambda>a. item_key (deref (q_store s) a)) ` set (q_items s')"
      using cd by (simp add: core_eq)
    finally show ?thesis .
  qed
  from as(1-4) 5 6 7 show ?thesis by blast
qed

text \<open>
  At the example queue and \<open>now = 2000\<close>: the values of \<open>k1\<close> and \<open>k2\<close> are
  returned in this order and the items of \<open>k3\<close> and \<open>k0\<close> remain.
\<close>

theorem Ready_returns_due_in_order_witness:
  "(\<exists>as. fst (Ready 2000 example_queue) =
        map (\<lambda>a. item_value (deref (q_store example_queue) a)) as \<and>
      sorted (map (\<lambda>a. item_t (deref (q_store example_queue) a)) as) \<and>
      mset as = filter_mset (\<lambda>a. item_t (deref (q_store example_queue) a) \<le> 2000)
        (mset (q_items example_queue)) \<and>
      mset (q_items (snd (Ready 2000 example_queue))) =
        filter_mset (\<lambda>a. 2000 < item_t (deref (q_store example_queue) a))
          (mset (q_items example_queue))) \<and>
   fst (Ready 2000 example_queue) = [1, 2] \<and>
   q_items (snd (Ready 2000 example_queue)) = [3, 0]"
proof -
  have r: "Ready 2000 example_queue =
      (fst (Ready 2000 example_queue), snd (Ready 2000 example_queue))" by simp
  from Ready_returns_due_in_order [OF example_queue_def r]
  have "\<exists>as. fst (Ready 2000 example_queue) =
        map (\<lambda>a. item_value (deref (q_store example_queue) a)) as \<and>
      sorted (map (\<lambda>a. item_t (deref (q_store example_queue) a)) as) \<and>
      mset as = filter_mset (\<lambda>a. item_t (deref (q_store example_queue) a) \<le> 2000)
        (mset (q_items example_queue)) \<and>
      mset (q_items (snd (Ready 2000 example_queue))) =
        filter_mset (\<lambda>a. 2000 < item_t (deref (q_store example_queue) a))
          (mset (q_items example_queue))"
    by blast
  with example_Ready show ?thesis by blast
qed

text \<open>
  C4. After any sequence of \<^verbatim>\<open>Add\<close>, \<^verbatim>\<open>Remove\<close> and \<^verbatim>\<open>Ready\<close> calls on a new queue:
  the deadline of every item that is not at the root is at least its parent's, the
  parent of position \<open>j\<close> being position \<open>(j - 1) div 2\<close>; the keys of the index are
  exactly the keys of the items in the heap array, each key leading to its item; and the
  item at position \<open>i\<close> records \<open>i\<close> as its heap index.
\<close>

theorem queue_invariant_after_calls:
  assumes "s = run cs New"
  shows "(\<forall>j. 0 < j \<and> j < length (q_items s) \<longrightarrow>
            item_t (deref (q_store s) (q_items s ! ((j - 1) div 2)))
              \<le> item_t (deref (q_store s) (q_items s ! j))) \<and>
         dom (q_m s) = (\<lambda>a. item_key (deref (q_store s) a)) ` set (q_items s) \<and>
         (\<forall>a \<in> set (q_items s). q_m s (item_key (deref (q_store s) a)) = Some a) \<and>
         (\<forall>i < length (q_items s). item_i (deref (q_store s) (q_items s ! i)) = i)"
proof -
  have inv: "queue_inv s" unfolding assms by (rule queue_inv_reachable)
  have 1: "item_t (deref (q_store s) (q_items s ! ((j - 1) div 2)))
      \<le> item_t (deref (q_store s) (q_items s ! j))" if j: "0 < j" "j < length (q_items s)" for j
  proof -
    have "parent j < j" using j by (simp add: parent_less)
    then have "parent j < length (q_items s)" using j by simp
    moreover from inv j have "deadlines (q_items s, q_store s) ! parent j
        \<le> deadlines (q_items s, q_store s) ! j"
      by (simp add: queue_inv_def heap_upto_def)
    ultimately show ?thesis using j by (simp add: deadlines_def parent_def)
  qed
  from inv have mp: "\<And>k a. q_m s k = Some a \<longleftrightarrow>
      a \<in> set (q_items s) \<and> item_key (deref (q_store s) a) = k"
    by (simp add: queue_inv_def)
  have 2: "dom (q_m s) = (\<lambda>a. item_key (deref (q_store s) a)) ` set (q_items s)"
    using mp by (auto simp: dom_def image_iff)
  have 3: "\<forall>a \<in> set (q_items s). q_m s (item_key (deref (q_store s) a)) = Some a"
    using mp by simp
  have 4: "\<forall>i < length (q_items s). item_i (deref (q_store s) (q_items s ! i)) = i"
    using inv by (auto simp: queue_inv_def items_wf_def deref_def)
  from 1 2 3 4 show ?thesis by blast
qed

text \<open>
  At the example queue after \<open>k3\<close> was removed and the items due at 1500 were taken.
\<close>

theorem queue_invariant_after_calls_witness:
  "q_items example_later = [2, 0] \<and>
   item_t (deref (q_store example_later) (q_items example_later ! 0))
     \<le> item_t (deref (q_store example_later) (q_items example_later ! 1)) \<and>
   dom (q_m example_later) =
     (\<lambda>a. item_key (deref (q_store example_later) a)) ` set (q_items example_later) \<and>
   item_i (deref (q_store example_later) (q_items example_later ! 1)) = 1"
proof -
  note t = queue_invariant_after_calls [OF example_later_def]
  have l: "length (q_items example_later) = 2" by (simp add: example_later_items)
  from t have "0 < (1::nat) \<and> 1 < length (q_items example_later) \<longrightarrow>
      item_t (deref (q_store example_later) (q_items example_later ! ((1 - 1) div 2)))
        \<le> item_t (deref (q_store example_later) (q_items example_later ! 1))"
    by blast
  then have a: "item_t (deref (q_store example_later) (q_items example_later ! 0))
     \<le> item_t (deref (q_store example_later) (q_items example_later ! 1))"
    using l by simp
  from t have "1 < length (q_items example_later) \<longrightarrow>
      item_i (deref (q_store example_later) (q_items example_later ! 1)) = 1"
    by blast
  then have b: "item_i (deref (q_store example_later) (q_items example_later ! 1)) = 1"
    using l by simp
  from t have c: "dom (q_m example_later) =
     (\<lambda>a. item_key (deref (q_store example_later) a)) ` set (q_items example_later)"
    by blast
  from a b c example_later_items show ?thesis by blast
qed

text \<open>
  C5. In every state, \<^verbatim>\<open>Add\<close> with a key that the index holds panics with the
  duplicate-key error and leaves the queue, heap array and index and items, as it was.
  In a state that calls reach from a new queue the same holds for the key of any item in
  the heap array.
\<close>

theorem Add_duplicate_key_panics:
  "(q_m s key \<noteq> None \<longrightarrow> Queue_Add key v t s = (Inl (DuplicateKey key), s)) \<and>
   (s = run cs New \<and> a \<in> set (q_items s) \<and> item_key (deref (q_store s) a) = key \<longrightarrow>
      Queue_Add key v t s = (Inl (DuplicateKey key), s))"
proof (rule conjI; rule impI)
  assume "q_m s key \<noteq> None"
  then show "Queue_Add key v t s = (Inl (DuplicateKey key), s)"
    by (simp add: Queue_Add_def)
next
  assume "s = run cs New \<and> a \<in> set (q_items s) \<and> item_key (deref (q_store s) a) = key"
  then have s: "s = run cs New" and a: "a \<in> set (q_items s)"
    and k: "item_key (deref (q_store s) a) = key" by blast+
  have "queue_inv s" unfolding s by (rule queue_inv_reachable)
  with a k have "q_m s key = Some a" by (simp add: queue_inv_def)
  then show "Queue_Add key v t s = (Inl (DuplicateKey key), s)"
    by (simp add: Queue_Add_def)
qed

text \<open>
  At the example queue and the key \<open>k1\<close>, whose item is at address 1.
\<close>

theorem Add_duplicate_key_panics_witness:
  "q_m example_queue ''k1'' \<noteq> None \<and>
   1 \<in> set (q_items example_queue) \<and>
   item_key (deref (q_store example_queue) 1) = ''k1'' \<and>
   Queue_Add ''k1'' 7 99 example_queue = (Inl (DuplicateKey ''k1''), example_queue)"
proof -
  have p: "q_m example_queue ''k1'' \<noteq> None" by (simp add: example_m)
  have i: "1 \<in> set (q_items example_queue)" by (simp add: example_items)
  have k: "item_key (deref (q_store example_queue) 1) = ''k1''"
    using example_store(2) by simp
  from Add_duplicate_key_panics [where s = example_queue and key = "''k1''" and v = 7 and t = 99
      and cs = example_calls and a = 1] p
  have "Queue_Add ''k1'' 7 99 example_queue = (Inl (DuplicateKey ''k1''), example_queue)"
    by blast
  with p i k show ?thesis by blast
qed

text \<open>
  C6. In every state, \<^verbatim>\<open>Remove\<close> with a key that the index does not hold returns
  normally and leaves the queue as it was. In a state that calls reach from a new queue,
  \<^verbatim>\<open>Remove\<close> with a key that the index maps to an item returns normally, takes that
  item, and no other, out of the heap array, and deletes the key, and no other, from the
  index.
\<close>

theorem Remove_absent_or_present:
  "(q_m s key = None \<longrightarrow> Queue_Remove key s = (Inr (), s)) \<and>
   (s = run cs New \<and> q_m s key = Some a \<longrightarrow>
      fst (Queue_Remove key s) = Inr () \<and>
      a \<in> set (q_items s) \<and> item_key (deref (q_store s) a) = key \<and>
      mset (q_items (snd (Queue_Remove key s))) = mset (q_items s) - {#a#} \<and>
      a \<notin> set (q_items (snd (Queue_Remove key s))) \<and>
      q_m (snd (Queue_Remove key s)) = (q_m s)(key := None))"
proof (rule conjI; rule impI)
  assume "q_m s key = None"
  then show "Queue_Remove key s = (Inr (), s)"
    by (simp add: Queue_Remove_def)
next
  assume "s = run cs New \<and> q_m s key = Some a"
  then have s: "s = run cs New" and m: "q_m s key = Some a" by blast+
  have inv: "queue_inv s" unfolding s by (rule queue_inv_reachable)
  from Queue_Remove_present [OF inv m] obtain h' where
    e: "Queue_Remove key s =
       (Inr (), s\<lparr>q_items := fst h', q_store := snd h', q_m := (q_m s)(key := None)\<rparr>)"
    and r: "removed (q_items s, q_store s) a h'" by blast
  note ix = index_of_item [OF inv m]
  from inv have d: "distinct (q_items s)" by (simp add: queue_inv_def items_wf_def)
  from r have ms: "mset (fst h') = mset (q_items s) - {#a#}" by (simp add: removed_def)
  have "mset (fst h') = mset (removeAll a (q_items s))"
    using ms d by (simp add: distinct_remove1_removeAll [symmetric])
  then have "set (fst h') = set (removeAll a (q_items s))" by (rule mset_eq_setD)
  then have na: "a \<notin> set (fst h')" by simp
  show "fst (Queue_Remove key s) = Inr () \<and>
      a \<in> set (q_items s) \<and> item_key (deref (q_store s) a) = key \<and>
      mset (q_items (snd (Queue_Remove key s))) = mset (q_items s) - {#a#} \<and>
      a \<notin> set (q_items (snd (Queue_Remove key s))) \<and>
      q_m (snd (Queue_Remove key s)) = (q_m s)(key := None)"
    using ix ms na by (simp add: e)
qed

text \<open>
  At the example queue: the key \<open>zz\<close> is absent, and \<open>k3\<close> leads to the item at
  address 3.
\<close>

theorem Remove_absent_or_present_witness:
  "q_m example_queue ''zz'' = None \<and>
   Queue_Remove ''zz'' example_queue = (Inr (), example_queue) \<and>
   q_m example_queue ''k3'' = Some 3 \<and>
   fst (Queue_Remove ''k3'' example_queue) = Inr () \<and>
   mset (q_items (snd (Queue_Remove ''k3'' example_queue))) = mset (q_items example_queue) - {#3#} \<and>
   3 \<notin> set (q_items (snd (Queue_Remove ''k3'' example_queue))) \<and>
   q_m (snd (Queue_Remove ''k3'' example_queue)) = (q_m example_queue)(''k3'' := None) \<and>
   q_items (snd (Queue_Remove ''k3'' example_queue)) = [1, 0, 2]"
proof -
  have z: "q_m example_queue ''zz'' = None" and k: "q_m example_queue ''k3'' = Some 3"
    by (simp_all add: example_m)
  from Remove_absent_or_present [where s = example_queue and key = "''zz''"] z
  have 1: "Queue_Remove ''zz'' example_queue = (Inr (), example_queue)" by blast
  from Remove_absent_or_present [where s = example_queue and key = "''k3''"
      and cs = example_calls and a = 3] k example_queue_def
  have 2: "fst (Queue_Remove ''k3'' example_queue) = Inr () \<and>
   mset (q_items (snd (Queue_Remove ''k3'' example_queue))) = mset (q_items example_queue) - {#3#} \<and>
   3 \<notin> set (q_items (snd (Queue_Remove ''k3'' example_queue))) \<and>
   q_m (snd (Queue_Remove ''k3'' example_queue)) = (q_m example_queue)(''k3'' := None)"
    by blast
  from z k 1 2 example_Remove(2) show ?thesis by blast
qed

text \<open>
  C7. \<^verbatim>\<open>Next()\<close> returns nil exactly when the heap array is empty. Otherwise, in a state
  that calls reach from a new queue, it returns the channel the clock makes for the
  duration from the clock's reading to the deadline of the root, which is the earliest
  deadline in the queue. The result is a function of the clock and of the queue as it
  is at the call: the state has no field that caches it. The duration is the
  library's \<^verbatim>\<open>Sub\<close> of the two times, which is their difference whenever that fits in a
  \<^verbatim>\<open>time.Duration\<close>.
\<close>

theorem Next_nil_iff_empty:
  "(Next clk s = None \<longleftrightarrow> q_items s = []) \<and>
   (s = run cs New \<and> q_items s \<noteq> [] \<longrightarrow>
      Next clk s =
        Some (After clk (Time_Sub (item_t (deref (q_store s) (q_items s ! 0))) (Now clk))) \<and>
      (\<forall>a \<in> set (q_items s).
         item_t (deref (q_store s) (q_items s ! 0)) \<le> item_t (deref (q_store s) a))) \<and>
   (- (2 ^ 63) \<le> t - u \<and> t - u < 2 ^ 63 \<longrightarrow> sint (Time_Sub t u) = t - u)"
proof (intro conjI)
  show "Next clk s = None \<longleftrightarrow> q_items s = []"
    by (simp add: Next_def)
next
  show "s = run cs New \<and> q_items s \<noteq> [] \<longrightarrow>
      Next clk s =
        Some (After clk (Time_Sub (item_t (deref (q_store s) (q_items s ! 0))) (Now clk))) \<and>
      (\<forall>a \<in> set (q_items s).
         item_t (deref (q_store s) (q_items s ! 0)) \<le> item_t (deref (q_store s) a))"
  proof
    assume "s = run cs New \<and> q_items s \<noteq> []"
    then have s: "s = run cs New" and ne: "q_items s \<noteq> []" by blast+
    have inv: "queue_inv s" unfolding s by (rule queue_inv_reachable)
    have "Next clk s =
        Some (After clk (Time_Sub (item_t (deref (q_store s) (q_items s ! 0))) (Now clk)))"
      using ne by (simp add: Next_def)
    moreover have "\<forall>a \<in> set (q_items s).
         item_t (deref (q_store s) (q_items s ! 0)) \<le> item_t (deref (q_store s) a)"
      using inv by (simp add: root_min)
    ultimately show "Next clk s =
        Some (After clk (Time_Sub (item_t (deref (q_store s) (q_items s ! 0))) (Now clk))) \<and>
      (\<forall>a \<in> set (q_items s).
         item_t (deref (q_store s) (q_items s ! 0)) \<le> item_t (deref (q_store s) a))"
      by blast
  qed
next
  show "- (2 ^ 63) \<le> t - u \<and> t - u < 2 ^ 63 \<longrightarrow> sint (Time_Sub t u) = t - u"
    using Time_Sub_exact [of t u] by blast
qed

text \<open>
  At a new queue, and at the example queue with the clock reading 1000: the earliest
  deadline is 1500 and the duration is 500.
\<close>

theorem Next_nil_iff_empty_witness:
  "Next \<lparr>Now = 1000, After = (\<lambda>d. d)\<rparr> (New :: (string, nat) Queue) = None \<and>
   q_items example_queue \<noteq> [] \<and>
   Next \<lparr>Now = 1000, After = (\<lambda>d. d)\<rparr> example_queue =
     Some (After \<lparr>Now = 1000, After = (\<lambda>d. d)\<rparr>
       (Time_Sub (item_t (deref (q_store example_queue) (q_items example_queue ! 0)))
          (Now \<lparr>Now = 1000, After = (\<lambda>d. d)\<rparr>))) \<and>
   Next \<lparr>Now = 1000, After = (\<lambda>d. d)\<rparr> example_queue = Some 500 \<and>
   sint (Time_Sub 1500 1000) = 1500 - 1000"
proof -
  have e: "q_items (New :: (string, nat) Queue) = []" by (simp add: New_def)
  have ne: "q_items example_queue \<noteq> []" by (simp add: example_items)
  have r: "- (2 ^ 63) \<le> (1500::int) - 1000 \<and> (1500::int) - 1000 < 2 ^ 63" by simp
  from Next_nil_iff_empty [where s = "New :: (string, nat) Queue"
      and clk = "\<lparr>Now = 1000, After = (\<lambda>d. d)\<rparr>"] e
  have 1: "Next \<lparr>Now = 1000, After = (\<lambda>d. d)\<rparr> (New :: (string, nat) Queue) = None" by blast
  from Next_nil_iff_empty [where s = example_queue and cs = example_calls
      and clk = "\<lparr>Now = 1000, After = (\<lambda>d. d)\<rparr>"] ne example_queue_def
  have 2: "Next \<lparr>Now = 1000, After = (\<lambda>d. d)\<rparr> example_queue =
     Some (After \<lparr>Now = 1000, After = (\<lambda>d. d)\<rparr>
       (Time_Sub (item_t (deref (q_store example_queue) (q_items example_queue ! 0)))
          (Now \<lparr>Now = 1000, After = (\<lambda>d. d)\<rparr>)))"
    by blast
  from Next_nil_iff_empty [where s = example_queue and cs = example_calls
      and clk = "\<lparr>Now = 1000, After = (\<lambda>d. d)\<rparr>" and t = 1500 and u = 1000] r
  have 3: "sint (Time_Sub 1500 1000) = 1500 - 1000" by blast
  from 1 ne 2 3 example_Next show ?thesis by blast
qed

text \<open>
  C9. In a state that calls reach from a new queue, let \<open>k\<close> be a key the index maps
  to the item \<open>a\<close>, and \<open>k'\<close> another key. After \<^verbatim>\<open>Add\<close> of \<open>k'\<close> (not in the index
  before) or \<^verbatim>\<open>Remove\<close> of \<open>k'\<close>, the index still maps \<open>k\<close> to \<open>a\<close>, the heap array
  still holds \<open>a\<close>, and the key, the value and the deadline of \<open>a\<close> are what they were.
\<close>

theorem other_keys_keep_their_items:
  assumes "s = run cs New" and "q_m s k = Some a" and "k' \<noteq> k"
    and "(q_m s k' = None \<and> s' = snd (Queue_Add k' v t s)) \<or> s' = snd (Queue_Remove k' s)"
  shows "q_m s' k = Some a \<and> a \<in> set (q_items s') \<and>
     item_key (deref (q_store s') a) = k \<and>
     item_value (deref (q_store s') a) = item_value (deref (q_store s) a) \<and>
     item_t (deref (q_store s') a) = item_t (deref (q_store s) a)"
proof -
  have inv: "queue_inv s" unfolding assms(1) by (rule queue_inv_reachable)
  note ix = index_of_item [OF inv assms(2)]
  from assms(4) show ?thesis
  proof
    assume b: "q_m s k' = None \<and> s' = snd (Queue_Add k' v t s)"
    then have n: "q_m s k' = None" and e: "s' = snd (Queue_Add k' v t s)" by simp_all
    note ad3 = Queue_Add_absent(3) [where v = v and t = t, OF inv n, folded e]
    note ad4 = Queue_Add_absent(4) [where v = v and t = t, OF inv n, folded e]
    note ad6 = Queue_Add_absent(6) [where v = v and t = t, OF inv n, folded e]
    from ad4 ix have "a \<in> set (q_items s')"
      by (metis insert_iff set_mset_add_mset_insert set_mset_mset)
    moreover from ad3 assms(3) assms(2) have "q_m s' k = Some a" by simp
    moreover from ad6 [of a] ix have "core (deref (q_store s') a) = core (deref (q_store s) a)"
      by simp
    ultimately show ?thesis using ix by (simp add: core_eq)
  next
    assume e: "s' = snd (Queue_Remove k' s)"
    show ?thesis
    proof (cases "q_m s k'")
      case None
      then have "s' = s" using e by (simp add: Queue_Remove_def)
      then show ?thesis using ix assms(2) by simp
    next
      case (Some b)
      from Queue_Remove_present [OF inv Some] obtain h' where
        e': "Queue_Remove k' s =
         (Inr (), s\<lparr>q_items := fst h', q_store := snd h', q_m := (q_m s)(k' := None)\<rparr>)"
        and r: "removed (q_items s, q_store s) b h'" by blast
      have ab: "a \<noteq> b" using assms(2,3) Some index_of_item [OF inv Some] ix by auto
      from r have ms: "mset (fst h') = mset (q_items s) - {#b#}"
        and c: "\<And>x. map_option core (snd h' x) = map_option core (q_store s x)"
        by (simp_all add: removed_def)
      have "a \<in># mset (q_items s) - {#b#}" using ix ab by (simp add: in_diff_count)
      then have "a \<in> set (fst h')" using ms by (metis set_mset_mset)
      moreover have "core (deref (snd h') a) = core (deref (q_store s) a)"
        by (rule core_deref [of "snd h'" a "q_store s", OF c])
      ultimately show ?thesis using ix assms(2,3) by (simp add: e e' core_eq)
    qed
  qed
qed

text \<open>
  At the example queue and the key \<open>k1\<close>: after adding \<open>k9\<close>, and after removing
  \<open>k3\<close>.
\<close>

theorem other_keys_keep_their_items_witness:
  "q_m example_queue ''k1'' = Some 1 \<and> q_m example_queue ''k9'' = None \<and>
   q_m (snd (Queue_Add ''k9'' 9 1000 example_queue)) ''k1'' = Some 1 \<and>
   1 \<in> set (q_items (snd (Queue_Add ''k9'' 9 1000 example_queue))) \<and>
   item_value (deref (q_store (snd (Queue_Add ''k9'' 9 1000 example_queue))) 1) = 1 \<and>
   item_t (deref (q_store (snd (Queue_Add ''k9'' 9 1000 example_queue))) 1) = 1500 \<and>
   q_m (snd (Queue_Remove ''k3'' example_queue)) ''k1'' = Some 1 \<and>
   1 \<in> set (q_items (snd (Queue_Remove ''k3'' example_queue))) \<and>
   item_value (deref (q_store (snd (Queue_Remove ''k3'' example_queue))) 1) = 1 \<and>
   item_t (deref (q_store (snd (Queue_Remove ''k3'' example_queue))) 1) = 1500"
proof -
  have k1: "q_m example_queue ''k1'' = Some 1" and k9: "q_m example_queue ''k9'' = None"
    by (simp_all add: example_m)
  have ne: "''k9'' \<noteq> ''k1''" "''k3'' \<noteq> ''k1''" by simp_all
  have v: "item_value (deref (q_store example_queue) 1) = 1"
    "item_t (deref (q_store example_queue) 1) = 1500"
    using example_store(2) by simp_all
  have a: "(q_m example_queue ''k9'' = None \<and>
      snd (Queue_Add ''k9'' 9 1000 example_queue) = snd (Queue_Add ''k9'' 9 1000 example_queue)) \<or>
      snd (Queue_Add ''k9'' 9 1000 example_queue) = snd (Queue_Remove ''k9'' example_queue)"
    using k9 by simp
  have r: "(q_m example_queue ''k3'' = None \<and>
      snd (Queue_Remove ''k3'' example_queue) = snd (Queue_Add ''k3'' 0 0 example_queue)) \<or>
      snd (Queue_Remove ''k3'' example_queue) = snd (Queue_Remove ''k3'' example_queue)"
    by simp
  from other_keys_keep_their_items [OF example_queue_def k1 ne(1) a] v
  have 1: "q_m (snd (Queue_Add ''k9'' 9 1000 example_queue)) ''k1'' = Some 1 \<and>
   1 \<in> set (q_items (snd (Queue_Add ''k9'' 9 1000 example_queue))) \<and>
   item_value (deref (q_store (snd (Queue_Add ''k9'' 9 1000 example_queue))) 1) = 1 \<and>
   item_t (deref (q_store (snd (Queue_Add ''k9'' 9 1000 example_queue))) 1) = 1500"
    by simp
  from other_keys_keep_their_items [OF example_queue_def k1 ne(2) r] v
  have 2: "q_m (snd (Queue_Remove ''k3'' example_queue)) ''k1'' = Some 1 \<and>
   1 \<in> set (q_items (snd (Queue_Remove ''k3'' example_queue))) \<and>
   item_value (deref (q_store (snd (Queue_Remove ''k3'' example_queue))) 1) = 1 \<and>
   item_t (deref (q_store (snd (Queue_Remove ''k3'' example_queue))) 1) = 1500"
    by simp
  from k1 k9 1 2 show ?thesis by blast
qed

end
